theory Spec2Isabelle
  imports Complex_Main "HOL-Library.Multiset" "HOL-Library.Char_ord" "HOL-Library.List_Lexorder"
begin

section \<open>Python exceptions\<close>

text \<open>The exceptions of \<^verbatim>\<open>mapper.py\<close> that matter: those it catches and those that escape.\<close>

datatype py_error = IndexError | ValueError | TypeError | NameError | KeyboardInterrupt
  | PlaywrightTimeoutError | AttributeError

section \<open>The spiral generator\<close>

text \<open>
  \<^verbatim>\<open>spiral(width, height, limits, step)\<close> is a generator; the model returns the list of the
  points it yields, in order. Its \<^verbatim>\<open>while True\<close> loop may run forever (for instance with
  \<^verbatim>\<open>step = 0\<close>), so the loop is a partial function: \<open>None\<close> is "never returns".
\<close>

type_synonym point = "int \<times> int"

record bounds =
  x_min :: int
  x_max :: int
  y_min :: int
  y_max :: int

definition directions :: "(int \<times> int) list" where
  "directions = [(1, 0), (0, 1), (-1, 0), (0, -1)]"

text \<open>
  The innermost loop \<^verbatim>\<open>for _ in range(segment_length)\<close>: the points yielded, and the position
  after the last iteration when the loop runs to its end (\<open>None\<close> when the generator returned
  inside it).
\<close>

fun segment :: "bounds \<Rightarrow> int \<Rightarrow> int \<times> int \<Rightarrow> nat \<Rightarrow> point \<Rightarrow> point list \<times> point option" where
  "segment B step (dx, dy) 0 (x, y) = ([], Some (x, y))"
| "segment B step (dx, dy) (Suc n) (x, y) =
     (let x' = x + dx * step; y' = y + dy * step in
      if x' < x_min B \<or> x' > x_max B \<or> y' < y_min B \<or> y' > y_max B then ([], None)
      else if (dx > 0 \<and> x' \<ge> x_max B) \<or> (dx < 0 \<and> x' \<le> x_min B) \<or>
              (dy > 0 \<and> y' \<ge> y_max B) \<or> (dy < 0 \<and> y' \<le> y_min B) then ([(x', y')], None)
      else (case segment B step (dx, dy) n (x', y') of (ps, r) \<Rightarrow> ((x', y') # ps, r)))"

text \<open>
  One round of \<^verbatim>\<open>while True\<close>: the two iterations of \<^verbatim>\<open>for _ in range(2)\<close> written out, each
  followed by \<^verbatim>\<open>direction = (direction + 1) % 4\<close>, then \<^verbatim>\<open>segment_length += 1\<close>.
\<close>

partial_function (option) spiral_loop ::
  "bounds \<Rightarrow> int \<Rightarrow> point \<Rightarrow> nat \<Rightarrow> nat \<Rightarrow> point list option" where
  "spiral_loop B step p direction segment_length =
     (case segment B step (directions ! direction) segment_length p of
        (ps1, None) \<Rightarrow> Some ps1
      | (ps1, Some p1) \<Rightarrow>
          (let direction1 = (direction + 1) mod 4 in
           case segment B step (directions ! direction1) segment_length p1 of
             (ps2, None) \<Rightarrow> Some (ps1 @ ps2)
           | (ps2, Some p2) \<Rightarrow>
               (let direction2 = (direction1 + 1) mod 4 in
                Option.bind (spiral_loop B step p2 direction2 (segment_length + 1))
                  (\<lambda>rest. Some (ps1 @ ps2 @ rest)))))"

declare spiral_loop.simps [code]

text \<open>
  \<^verbatim>\<open>limits[0]\<close> and \<^verbatim>\<open>limits[1]\<close> raise IndexError on a list that is too short, before
  anything is yielded. \<^verbatim>\<open>//\<close> is floor division, which is \<open>div\<close> on \<open>int\<close>. The centre is
  yielded before any bound is looked at.
\<close>

definition spiral :: "int \<Rightarrow> int \<Rightarrow> int list \<Rightarrow> int \<Rightarrow> (py_error + point list) option" where
  "spiral width height limits step =
     (if length limits < 2 then Some (Inl IndexError)
      else
        let B = \<lparr>x_min = limits ! 0, x_max = width - limits ! 0,
                 y_min = limits ! 1, y_max = height - limits ! 1\<rparr>;
            x = width div 2; y = height div 2
        in map_option (\<lambda>rest. Inr ((x, y) # rest)) (spiral_loop B step (x, y) 0 1))"

section \<open>Strings\<close>

text \<open>
  A Python \<^verbatim>\<open>str\<close> is modelled as a \<open>string\<close> whose characters are code points below 256.
  \<^verbatim>\<open>str.strip()\<close> removes leading and trailing white space: the code points 9 to 13, 28 to 32,
  133 and 160 are the ones below 256 for which \<^verbatim>\<open>str.isspace()\<close> holds. \<^verbatim>\<open>str.lower()\<close> maps
  A to Z, and the capital letters 192 to 222 other than the multiplication sign 215, to the
  code point 32 higher, and leaves every other code point below 256 as it is.
\<close>

definition is_space :: "char \<Rightarrow> bool" where
  "is_space c \<longleftrightarrow> (let n = (of_char c :: nat) in
     (9 \<le> n \<and> n \<le> 13) \<or> (28 \<le> n \<and> n \<le> 32) \<or> n = 133 \<or> n = 160)"

definition py_strip :: "string \<Rightarrow> string" where
  "py_strip s = rev (dropWhile is_space (rev (dropWhile is_space s)))"

definition lower_char :: "char \<Rightarrow> char" where
  "lower_char c = (let n = (of_char c :: nat) in
     if (65 \<le> n \<and> n \<le> 90) \<or> (192 \<le> n \<and> n \<le> 222 \<and> n \<noteq> 215) then char_of (n + 32) else c)"

definition py_lower :: "string \<Rightarrow> string" where
  "py_lower s = map lower_char s"

section \<open>CSV files and the filter commands\<close>

text \<open>
  A CSV file is modelled by the rows \<^verbatim>\<open>csv.reader\<close> yields for it, each row a list of
  fields; a blank line yields the empty row. \<^verbatim>\<open>read_csv\<close> turns the rows into a set of tuples.
\<close>

type_synonym row = "string list"

definition read_csv :: "row list \<Rightarrow> row set" where
  "read_csv file = set file"

text \<open>\<^verbatim>\<open>row[0]\<close> raises IndexError on the empty tuple.\<close>

definition first_field :: "row \<Rightarrow> py_error + string" where
  "first_field row = (case row of [] \<Rightarrow> Inl IndexError | a # _ \<Rightarrow> Inr a)"

text \<open>\<^verbatim>\<open>row[0].strip().lower()\<close>\<close>

definition address_key :: "row \<Rightarrow> py_error + string" where
  "address_key row = (case first_field row of Inl e \<Rightarrow> Inl e | Inr a \<Rightarrow> Inr (py_lower (py_strip a)))"

text \<open>
  \<^verbatim>\<open>{row[0].strip().lower() for row in lines if row}\<close>: the guard \<^verbatim>\<open>if row\<close> keeps the empty
  tuple away from \<^verbatim>\<open>row[0]\<close>.
\<close>

definition addresses :: "row set \<Rightarrow> string set" where
  "addresses lines =
     (\<Union>row \<in> {row \<in> lines. row \<noteq> []}. case address_key row of Inr k \<Rightarrow> {k} | Inl e \<Rightarrow> {})"

text \<open>\<^verbatim>\<open>{row for row in lines if row and row[0].strip().lower() in keys}\<close>\<close>

definition rows_with_key_in :: "row set \<Rightarrow> string set \<Rightarrow> row set" where
  "rows_with_key_in lines keys =
     {row \<in> lines. row \<noteq> [] \<and> (case address_key row of Inr k \<Rightarrow> k \<in> keys | Inl e \<Rightarrow> False)}"

definition union_cmd :: "row set \<Rightarrow> row set \<Rightarrow> row set" where
  "union_cmd lines1 lines2 =
     (let addresses1 = addresses lines1; addresses2 = addresses lines2
      in rows_with_key_in lines1 addresses1 \<union> rows_with_key_in lines2 addresses2)"

definition intersect_cmd :: "row set \<Rightarrow> row set \<Rightarrow> row set" where
  "intersect_cmd lines1 lines2 =
     (let addresses1 = addresses lines1; addresses2 = addresses lines2;
          common_addresses = addresses1 \<inter> addresses2
      in rows_with_key_in lines1 common_addresses \<union> rows_with_key_in lines2 common_addresses)"

definition difference_cmd :: "row set \<Rightarrow> row set \<Rightarrow> row set" where
  "difference_cmd lines1 lines2 =
     (let addresses1 = addresses lines1; addresses2 = addresses lines2;
          diff_addresses = addresses1 - addresses2
      in rows_with_key_in lines1 diff_addresses)"

text \<open>
  Unique and Sort walk over the set \<^verbatim>\<open>read_csv\<close> returned; \<open>lines\<close> below is that set in
  the order the walk visits it. Unique catches the IndexError of \<^verbatim>\<open>row[0]\<close> and goes on with
  the next row.
\<close>

fun unique_loop :: "row list \<Rightarrow> string set \<Rightarrow> row list \<Rightarrow> py_error + row list" where
  "unique_loop [] seen_addresses result = Inr result"
| "unique_loop (row # lines) seen_addresses result =
     (case address_key row of
        Inl e \<Rightarrow> if e = IndexError then unique_loop lines seen_addresses result else Inl e
      | Inr address \<Rightarrow>
          if address \<notin> seen_addresses
          then unique_loop lines (insert address seen_addresses) (result @ [row])
          else unique_loop lines seen_addresses result)"

definition unique_cmd :: "row list \<Rightarrow> py_error + row list" where
  "unique_cmd lines = unique_loop lines {} []"

text \<open>
  \<^verbatim>\<open>sorted(lines, key=lambda x: x[0].lower())\<close> computes the key of every row first; the key
  of the empty tuple raises IndexError, which nothing catches. The sort is stable and
  compares strings code point by code point, as \<open>sort_key\<close> does on \<open>string\<close>.
\<close>

definition sort_key_of :: "row \<Rightarrow> py_error + string" where
  "sort_key_of x = (case first_field x of Inl e \<Rightarrow> Inl e | Inr a \<Rightarrow> Inr (py_lower a))"

fun keyed :: "row list \<Rightarrow> py_error + (string \<times> row) list" where
  "keyed [] = Inr []"
| "keyed (x # xs) =
     (case sort_key_of x of
        Inl e \<Rightarrow> Inl e
      | Inr k \<Rightarrow> (case keyed xs of Inl e \<Rightarrow> Inl e | Inr kxs \<Rightarrow> Inr ((k, x) # kxs)))"

definition sort_cmd :: "row list \<Rightarrow> py_error + row list" where
  "sort_cmd lines =
     (case keyed lines of Inl e \<Rightarrow> Inl e | Inr kxs \<Rightarrow> Inr (map snd (sort_key fst kxs)))"

section \<open>Unique file names\<close>

text \<open>
  The file system is a map from the paths that exist to their contents (the rows of a CSV
  file);
  \<^verbatim>\<open>os.path.exists(p)\<close> is \<open>fs p \<noteq> None\<close>. \<open>str_of_nat\<close> is \<^verbatim>\<open>str\<close> on a non-negative
  integer, used by the f-string \<^verbatim>\<open>f'locations/{prefix}{index}.csv'\<close>.
\<close>

type_synonym filesystem = "string \<rightharpoonup> row list"

definition digit_char :: "nat \<Rightarrow> char" where
  "digit_char d = char_of (48 + d)"

function str_of_nat :: "nat \<Rightarrow> string" where
  "str_of_nat n = (if n < 10 then [digit_char n] else str_of_nat (n div 10) @ [digit_char (n mod 10)])"
  by pat_completeness auto
termination
  by (relation "measure id") auto

definition filename_of :: "string \<Rightarrow> nat \<Rightarrow> string" where
  "filename_of prefix index = ''locations/'' @ prefix @ str_of_nat index @ ''.csv''"

text \<open>
  The loop of \<^verbatim>\<open>get_unique_filename\<close> has no bound of its own: it ends when it meets an
  index whose file does not exist.
\<close>

partial_function (option) unique_filename_loop :: "filesystem \<Rightarrow> string \<Rightarrow> nat \<Rightarrow> string option" where
  "unique_filename_loop fs prefix index =
     (let filename = filename_of prefix index in
      if fs filename = None then Some filename
      else unique_filename_loop fs prefix (index + 1))"

declare unique_filename_loop.simps [code]

definition get_unique_filename :: "filesystem \<Rightarrow> string \<Rightarrow> string option" where
  "get_unique_filename fs prefix = unique_filename_loop fs prefix 0"

text \<open>\<^verbatim>\<open>open(output_file, 'w')\<close> followed by the writes: the file holds the rows written.\<close>

definition write_csv :: "row list \<Rightarrow> string \<Rightarrow> filesystem \<Rightarrow> filesystem" where
  "write_csv data output_file fs = fs(output_file \<mapsto> data)"

text \<open>
  Where a result is saved: scan mode calls \<^verbatim>\<open>get_unique_filename('locations')\<close> and the
  filter commands call it with their own prefix, and each then opens the returned name for
  writing.
\<close>

datatype command = Scan | Union | Intersect | Difference | Unique | Sort

fun prefix_of :: "command \<Rightarrow> string" where
  "prefix_of Scan = ''locations''"
| "prefix_of Union = ''union_result_''"
| "prefix_of Intersect = ''intersection_result_''"
| "prefix_of Difference = ''difference_result_''"
| "prefix_of Unique = ''unique_result_''"
| "prefix_of Sort = ''sort_result_''"

definition save_result :: "command \<Rightarrow> row list \<Rightarrow> filesystem \<Rightarrow> (string \<times> filesystem) option" where
  "save_result cmd data fs =
     (case get_unique_filename fs (prefix_of cmd) of
        None \<Rightarrow> None
      | Some output_file \<Rightarrow> Some (output_file, write_csv data output_file fs))"

section \<open>Validation of the prompts\<close>

text \<open>
  A Python float is a finite value, an infinity or NaN; \<open>fle\<close> is \<^verbatim>\<open><=\<close> on floats, which is
  exact and false whenever an operand is NaN. \<^verbatim>\<open>float(s)\<close> on a string is a parameter of the
  model (\<open>float_of\<close>): it returns the parsed float or raises. Both validators get the text
  typed at a prompt. The second \<^verbatim>\<open>float(lat)\<close> in the \<^verbatim>\<open>return\<close> is applied to a float and
  gives it back.
\<close>

datatype pyfloat = Finite real | PosInf | NegInf | NaN

fun fle :: "pyfloat \<Rightarrow> pyfloat \<Rightarrow> bool" where
  "fle NaN _ = False"
| "fle _ NaN = False"
| "fle NegInf _ = True"
| "fle _ PosInf = True"
| "fle PosInf _ = False"
| "fle _ NegInf = False"
| "fle (Finite a) (Finite b) = (a \<le> b)"

type_synonym float_parser = "string \<Rightarrow> py_error + pyfloat"

definition validate_coordinates :: "float_parser \<Rightarrow> string \<Rightarrow> string \<Rightarrow> py_error + bool" where
  "validate_coordinates float_of lat lon =
     (case float_of lat of
        Inl e \<Rightarrow> if e = ValueError then Inr False else Inl e
      | Inr lat' \<Rightarrow>
          (case float_of lon of
             Inl e \<Rightarrow> if e = ValueError then Inr False else Inl e
           | Inr lon' \<Rightarrow>
               Inr (fle (Finite (-90)) lat' \<and> fle lat' (Finite 90) \<and>
                    fle (Finite (-180)) lon' \<and> fle lon' (Finite 180))))"

definition validate_radius :: "float_parser \<Rightarrow> string \<Rightarrow> py_error + bool" where
  "validate_radius float_of radius =
     (case float_of radius of
        Inl e \<Rightarrow> if e = ValueError then Inr False else Inl e
      | Inr radius' \<Rightarrow> Inr (fle (Finite (1 / 100)) radius' \<and> fle radius' (Finite 10000)))"

section \<open>The zoom level\<close>

text \<open>
  \<^verbatim>\<open>compute_zoom\<close> on real numbers: the floats of the source are read as the reals they
  stand for and the rounding of each arithmetic step is left out. \<open>py_round\<close> is Python's
  \<^verbatim>\<open>round\<close> with one argument, which rounds a tie to the even integer. The model and the
  code agree wherever the sum that is rounded is further from a half-integer than the
  floating-point error of the division, the logarithm and the addition; for a radius
  whose sum is within that error of a half-integer, such as the radii next to
  823.86142 km (sum 6.5) and 0.10056902 km (sum 19.5), the double may fall on the other
  side of the tie than the real number, and the zoom of the code can differ by one from
  the zoom of the model. Nothing below is stated for such a radius.
\<close>

definition py_round :: "real \<Rightarrow> int" where
  "py_round x =
     (let f = \<lfloor>x\<rfloor>; d = x - of_int f in
      if d < 1 / 2 then f else if d > 1 / 2 then f + 1 else if even f then f else f + 1)"

definition compute_zoom :: "real \<Rightarrow> int" where
  "compute_zoom kilometers =
     (let meters = kilometers * 1000 in
      if meters \<le> 71 then 21
      else if meters \<ge> 1164888 then 7
      else
        let init_meters = 1165116;
            ratio = init_meters / meters;
            exponent = log 2 ratio;
            zoom = py_round (6 + exponent)
        in zoom)"

section \<open>Scanning one grid cell\<close>

text \<open>
  The body of the loop over the spiral in \<^verbatim>\<open>scan_locations\<close>. What the page does is the
  input of the model, one field for every call of the body that can raise:
  \<open>click k\<close> is what happens in the \<^verbatim>\<open>try\<close> block on the k-th attempt of the cell;
  \<open>pause k\<close> and \<open>reload k\<close> are the exceptions that \<^verbatim>\<open>page.wait_for_timeout(3000)\<close> and
  \<^verbatim>\<open>load_browser\<close> raise in the handler of that attempt (\<open>None\<close> when they return);
  \<open>settle\<close> is the exception of \<^verbatim>\<open>page.wait_for_timeout(1000)\<close> after the loop;
  \<open>modal\<close> is the lookup of the button text of the modal dialog; \<open>main\<close> is the state of the
  side panel; \<open>dismiss\<close> is the exception of the click that closes the panel before the row
  is written.
\<close>

datatype attempt_outcome =
    Raises py_error
  | Pointer_cursor
  | Resolved string

text \<open>
  \<open>Raises e\<close>: the \<^verbatim>\<open>try\<close> block raised \<open>e\<close> before \<^verbatim>\<open>success = True\<close>.
  \<open>Pointer_cursor\<close>: the cursor is a pointer, so \<^verbatim>\<open>success = False\<close> and \<^verbatim>\<open>break\<close>.
  \<open>Resolved text\<close>: \<open>text\<close> is the text of the first menu entry, and the click on the fifth
  entry went through, so \<^verbatim>\<open>coords = text.split(', ')\<close> and \<^verbatim>\<open>success = True\<close>.
\<close>




datatype lookup =
    Found "string option"
  | Lookup_raises py_error

text \<open>
  A chain of \<^verbatim>\<open>query_selector\<close> calls ending in \<^verbatim>\<open>text_content()\<close>: \<open>Found t\<close> when it returns
  (\<^verbatim>\<open>text_content()\<close> is a string or \<^verbatim>\<open>None\<close>), \<open>Lookup_raises e\<close> when a call raised, among them
  the AttributeError of a method call on the \<^verbatim>\<open>None\<close> that \<^verbatim>\<open>query_selector\<close> returns for a
  missing element.
\<close>

datatype main_panel =
    Main_raises py_error
  | Main_hidden
  | Main_visible lookup "py_error option"

text \<open>
  \<open>Main_raises e\<close>: looking the panel up or asking whether it is visible raised \<open>e\<close>.
  \<open>Main_visible l r\<close>: the panel is visible, \<open>l\<close> is the lookup of the text of its address
  button and \<open>r\<close> the exception of the \<^verbatim>\<open>load_browser\<close> that follows, inside the outer \<^verbatim>\<open>try\<close>.
\<close>

record cell =
  click :: "nat \<Rightarrow> attempt_outcome"
  pause :: "nat \<Rightarrow> py_error option"
  reload :: "nat \<Rightarrow> py_error option"
  settle :: "py_error option"
  modal :: lookup
  main :: main_panel
  dismiss :: "py_error option"












section \<open>Capture mode\<close>

text \<open>
  \<^verbatim>\<open>sanitize\<close>: the characters \<^verbatim>\<open><>:"/\|?*\<close> become underscores, then the first 100
  characters are kept and stripped.
\<close>

definition forbidden_chars :: "char list" where
  "forbidden_chars = [CHR ''<'', CHR ''>'', CHR '':'', CHR 0x22, CHR ''/'', CHR 0x5C,
                      CHR ''|'', CHR ''?'', CHR ''*'']"

definition sanitize :: "string \<Rightarrow> string" where
  "sanitize text =
     (let cleaned = map (\<lambda>c. if c \<in> set forbidden_chars then CHR ''_'' else c) text
      in py_strip (take 100 cleaned))"

text \<open>
  The names bound at the top level of \<^verbatim>\<open>mapper.py\<close>: its imports, its functions,
  \<^verbatim>\<open>modules\<close>, and the variables \<^verbatim>\<open>key\<close> and \<^verbatim>\<open>choice\<close> of the menu loop. Inside
  \<^verbatim>\<open>capture_location\<close> a name is a local of the function, one of these, or a builtin;
  looking up any other name raises NameError.
\<close>

definition module_names :: "string list" where
  "module_names = [''os'', ''re'', ''csv'', ''math'', ''time'', ''concurrent'',
     ''sync_playwright'', ''PlaywrightTimeoutError'', ''geodesic'', ''partial'',
     ''Fore'', ''Back'', ''Style'', ''init'', ''tqdm'',
     ''validate_coordinates'', ''validate_radius'', ''compute_zoom'', ''sanitize'',
     ''get_input'', ''get_unique_filename'', ''read_csv'', ''write_csv'', ''spiral'',
     ''load_browser'', ''scan_locations'', ''filter_locations'', ''capture_location'',
     ''find_images'', ''banner'', ''modules'', ''key'', ''choice'']"

definition capture_locals :: "string list" where
  "capture_locals = [''location'', ''address'', ''lat'', ''lon'', ''sanitized_name'',
     ''base_name'', ''p'', ''browser'', ''context'', ''page'', ''index'',
     ''screenshot_path'', ''e'']"

definition lookup_name :: "string \<Rightarrow> py_error option" where
  "lookup_name name =
     (if name \<in> set capture_locals \<or> name \<in> set module_names then None else Some NameError)"

text \<open>
  \<^verbatim>\<open>while os.path.exists(screenshot_path)\<close>: the first free name among
  \<^verbatim>\<open>buildings/{base_name}.png\<close>, \<^verbatim>\<open>buildings/{base_name}_1.png\<close>, ... . \<open>images\<close> is the set
  of paths that exist.
\<close>

partial_function (option) screenshot_path_loop :: "string set \<Rightarrow> string \<Rightarrow> string \<Rightarrow> nat \<Rightarrow> string option" where
  "screenshot_path_loop images base_name screenshot_path index =
     (if screenshot_path \<in> images
      then screenshot_path_loop images base_name
             (''buildings/'' @ base_name @ ''_'' @ str_of_nat index @ ''.png'') (index + 1)
      else Some screenshot_path)"

declare screenshot_path_loop.simps [code]

text \<open>
  The calls into the browser, in the order \<^verbatim>\<open>capture_location\<close> makes them; \<open>browser k\<close> is
  the exception the k-th call raises, \<open>None\<close> when it returns. \<open>calls\<close> runs the calls
  numbered \<open>ks\<close> up to the first that raises.
\<close>

fun calls :: "(nat \<Rightarrow> py_error option) \<Rightarrow> nat list \<Rightarrow> py_error option" where
  "calls browser [] = None"
| "calls browser (k # ks) = (case browser k of Some e \<Rightarrow> Some e | None \<Rightarrow> calls browser ks)"

text \<open>
  The body of the \<^verbatim>\<open>try\<close>: start Playwright (0), launch the browser (1), open a context (2)
  and a page (3), go to the map (4), wait for the canvas (5) and for the image (6); then
  \<^verbatim>\<open>page.click(img_selector, timeout=10000)\<close> evaluates the name \<^verbatim>\<open>img_selector\<close> before it
  clicks (7); then the screenshot path, the screenshot (8) and the two \<^verbatim>\<open>close\<close> calls (9, 10).
  The result is the value returned with the image files written, or the exception
  raised; the outer \<open>None\<close> is a \<^verbatim>\<open>while\<close> loop that never ends.
\<close>

definition capture_body ::
  "(nat \<Rightarrow> py_error option) \<Rightarrow> string set \<Rightarrow> string \<Rightarrow> (py_error + nat \<times> string list) option" where
  "capture_body browser images base_name =
     (case calls browser [0, 1, 2, 3, 4, 5, 6] of
        Some e \<Rightarrow> Some (Inl e)
      | None \<Rightarrow>
          (case lookup_name ''img_selector'' of
             Some e \<Rightarrow> Some (Inl e)
           | None \<Rightarrow>
               (case browser 7 of
                  Some e \<Rightarrow> Some (Inl e)
                | None \<Rightarrow>
                    (case screenshot_path_loop images base_name
                            (''buildings/'' @ base_name @ ''.png'') 1 of
                       None \<Rightarrow> None
                     | Some screenshot_path \<Rightarrow>
                         (case calls browser [8, 9, 10] of
                            Some e \<Rightarrow> Some (Inl e)
                          | None \<Rightarrow> Some (Inr (1, [screenshot_path])))))))"

text \<open>
  \<^verbatim>\<open>address, lat, lon = location\<close> raises ValueError unless the row has three fields, outside
  the \<^verbatim>\<open>try\<close>. The only handler is \<^verbatim>\<open>except KeyboardInterrupt\<close>, which returns 0.
\<close>

definition except_keyboard_interrupt ::
  "(py_error + nat \<times> string list) option \<Rightarrow> (py_error + nat \<times> string list) option" where
  "except_keyboard_interrupt r =
     (case r of
        Some (Inl e) \<Rightarrow> if e = KeyboardInterrupt then Some (Inr (0, [])) else Some (Inl e)
      | _ \<Rightarrow> r)"

definition capture_location ::
  "(nat \<Rightarrow> py_error option) \<Rightarrow> string set \<Rightarrow> row \<Rightarrow> (py_error + nat \<times> string list) option" where
  "capture_location browser images location =
     (case location of
        [address, lat, lon] \<Rightarrow>
          (let sanitized_name = sanitize address;
               base_name = (if sanitized_name \<noteq> [] then sanitized_name
                            else ''location_'' @ lat @ ''_'' @ lon)
           in except_keyboard_interrupt (capture_body browser images base_name))
      | _ \<Rightarrow> Some (Inl ValueError))"

text \<open>
  \<^verbatim>\<open>find_images\<close> submits one \<^verbatim>\<open>capture_location\<close> per row to a pool of five workers, each
  with a browser of its own (\<open>browsers i\<close> for row \<open>i\<close>), and collects the results with
  \<^verbatim>\<open>future.result()\<close> as the workers complete; \<^verbatim>\<open>future.result()\<close> raises in \<^verbatim>\<open>find_images\<close> the
  exception the worker raised. \<open>completion\<close> lists the rows' indices in the order their
  workers complete. The value is the count of successes, or the exception.
\<close>

fun collect_results :: "(py_error + nat \<times> string list) list \<Rightarrow> nat \<Rightarrow> py_error + nat" where
  "collect_results [] success_count = Inr success_count"
| "collect_results (Inl e # futures) success_count = Inl e"
| "collect_results (Inr (result, files) # futures) success_count =
     collect_results futures (if result \<noteq> 0 then success_count + 1 else success_count)"

definition find_images ::
  "(nat \<Rightarrow> nat \<Rightarrow> py_error option) \<Rightarrow> string set \<Rightarrow> row list \<Rightarrow> nat list \<Rightarrow> (py_error + nat) option" where
  "find_images browsers images locations completion =
     (let outcomes = map (\<lambda>i. capture_location (browsers i) images (locations ! i)) completion
      in if None \<in> set outcomes then None
         else Some (collect_results (map the outcomes) 0))"

section \<open>Termination of the spiral\<close>

definition span :: "bounds \<Rightarrow> int" where
  "span B = max (x_max B - x_min B) (y_max B - y_min B)"

lemma segment_end:
  "segment B s (dx, dy) n (x, y) = (ps, Some q) \<Longrightarrow> q = (x + int n * dx * s, y + int n * dy * s)"
proof (induction n arbitrary: x y ps)
  case 0
  then show ?case by simp
next
  case (Suc n)
  from Suc.prems obtain ps' where
    "segment B s (dx, dy) n (x + dx * s, y + dy * s) = (ps', Some q)"
    by (auto simp: Let_def split: if_splits prod.splits)
  from Suc.IH[OF this] show ?case by (simp add: algebra_simps)
qed

lemma segment_first_inside:
  assumes "segment B s (dx, dy) (Suc n) (x, y) = (ps, Some q)"
  shows "x_min B \<le> x + dx * s \<and> x + dx * s \<le> x_max B \<and>
         y_min B \<le> y + dy * s \<and> y + dy * s \<le> y_max B"
  using assms by (auto simp: Let_def split: if_splits prod.splits)

lemma segment_last_inside:
  "segment B s (dx, dy) (Suc n) (x, y) = (ps, Some (qx, qy)) \<Longrightarrow>
     x_min B \<le> qx \<and> qx \<le> x_max B \<and> y_min B \<le> qy \<and> qy \<le> y_max B \<and>
     \<not> (dx > 0 \<and> qx \<ge> x_max B) \<and> \<not> (dx < 0 \<and> qx \<le> x_min B) \<and>
     \<not> (dy > 0 \<and> qy \<ge> y_max B) \<and> \<not> (dy < 0 \<and> qy \<le> y_min B)"
proof (induction n arbitrary: x y ps)
  case 0
  then show ?case by (auto simp: Let_def split: if_splits)
next
  case (Suc n)
  from Suc.prems obtain ps' where
    "segment B s (dx, dy) (Suc n) (x + dx * s, y + dy * s) = (ps', Some (qx, qy))"
    by (subst (asm) segment.simps(2)) (auto simp: Let_def split: if_splits prod.splits)
  then show ?case by (rule Suc.IH)
qed

lemma segment_complete_span:
  assumes seg: "segment B s d (Suc n) p = (ps, Some q)"
    and d: "d \<in> set directions"
  shows "int n * s < span B"
proof -
  obtain x y where p: "p = (x, y)" by (cases p)
  obtain dx dy where dd: "d = (dx, dy)" by (cases d)
  obtain qx qy where q: "q = (qx, qy)" by (cases q)
  have e: "qx = x + int (Suc n) * dx * s" "qy = y + int (Suc n) * dy * s"
    using segment_end[of B s dx dy "Suc n" x y ps q] seg by (simp_all add: p dd q)
  note f = segment_first_inside[of B s dx dy n x y ps q, unfolded q]
  note l = segment_last_inside[of B s dx dy n x y ps qx qy]
  have s': "segment B s (dx, dy) (Suc n) (x, y) = (ps, Some (qx, qy))"
    using seg by (simp add: p dd q)
  from d consider "dx = 1 \<and> dy = 0" | "dx = 0 \<and> dy = 1" | "dx = -1 \<and> dy = 0" | "dx = 0 \<and> dy = -1"
    by (auto simp: directions_def dd)
  then show ?thesis
  proof cases
    case 1
    then show ?thesis using f[OF s'] l[OF s'] e by (simp add: span_def algebra_simps max_def)
  next
    case 2
    then show ?thesis using f[OF s'] l[OF s'] e by (simp add: span_def algebra_simps max_def)
  next
    case 3
    then show ?thesis using f[OF s'] l[OF s'] e by (simp add: span_def algebra_simps max_def)
  next
    case 4
    then show ?thesis using f[OF s'] l[OF s'] e by (simp add: span_def algebra_simps max_def)
  qed
qed

lemma spiral_loop_returns:
  assumes step: "0 < step"
  shows "direction < 4 \<Longrightarrow> 1 \<le> n \<Longrightarrow> \<exists>pts. spiral_loop B step p direction n = Some pts"
proof (induction "nat (span B + 1 - (int n - 1) * step)" arbitrary: n p direction rule: less_induct)
  case less
  obtain ps1 r1 where s1: "segment B step (directions ! direction) n p = (ps1, r1)"
    by (cases "segment B step (directions ! direction) n p")
  let ?d1 = "(direction + 1) mod 4"
  show ?case
  proof (cases r1)
    case None
    then show ?thesis using s1 by (subst spiral_loop.simps) simp
  next
    case r1: (Some p1)
    obtain ps2 r2 where s2: "segment B step (directions ! ?d1) n p1 = (ps2, r2)"
      by (cases "segment B step (directions ! ?d1) n p1")
    show ?thesis
    proof (cases r2)
      case None
      then show ?thesis using s1 r1 s2 by (subst spiral_loop.simps) (simp add: Let_def)
    next
      case r2: (Some p2)
      obtain m where n: "n = Suc m" using less.prems(2) by (cases n) auto
      have "directions ! direction \<in> set directions"
        using less.prems(1) by (intro nth_mem) (simp add: directions_def)
      with s1 r1 have "int m * step < span B"
        using segment_complete_span[of B step "directions ! direction" m p ps1 p1] by (simp add: n)
      then have dec: "nat (span B + 1 - (int (n + 1) - 1) * step)
                    < nat (span B + 1 - (int n - 1) * step)"
        using step by (simp add: n algebra_simps)
      have "(?d1 + 1) mod 4 < 4" by simp
      from less.hyps[OF dec this, of p2]
      obtain rest where "spiral_loop B step p2 ((?d1 + 1) mod 4) (n + 1) = Some rest"
        by auto
      then show ?thesis using s1 r1 s2 r2 by (subst spiral_loop.simps) (simp add: Let_def)
    qed
  qed
qed

section \<open>The points of the spiral\<close>

text \<open>
  Every point the generator yields is the centre plus a multiple of the step in each
  coordinate. \<open>gp\<close> maps a pair of grid indices to its point, and \<open>uline\<close> is a run of
  consecutive grid indices in one direction.
\<close>

definition gp :: "int \<Rightarrow> int \<Rightarrow> int \<Rightarrow> int \<times> int \<Rightarrow> point" where
  "gp cx cy s ij = (cx + fst ij * s, cy + snd ij * s)"

fun uline :: "int \<times> int \<Rightarrow> int \<times> int \<Rightarrow> nat \<Rightarrow> (int \<times> int) list" where
  "uline (i, j) (dx, dy) 0 = []"
| "uline (i, j) (dx, dy) (Suc k) = (i + dx, j + dy) # uline (i + dx, j + dy) (dx, dy) k"

lemma gp_inj: "s \<noteq> 0 \<Longrightarrow> inj (gp cx cy s)"
  by (auto simp: inj_on_def gp_def)

lemma uline_right: "(a, b) \<in> set (uline (i, j) (1, 0) k) \<longleftrightarrow> b = j \<and> i < a \<and> a \<le> i + int k"
proof (induction k arbitrary: i)
  case 0
  show ?case by simp
next
  case (Suc k)
  have "(a, b) \<in> set (uline (i, j) (1, 0) (Suc k)) \<longleftrightarrow>
        (a = i + 1 \<and> b = j) \<or> (a, b) \<in> set (uline (i + 1, j) (1, 0) k)"
    by simp
  also have "\<dots> \<longleftrightarrow> (a = i + 1 \<and> b = j) \<or> (b = j \<and> i + 1 < a \<and> a \<le> i + 1 + int k)"
    unfolding Suc.IH ..
  also have "\<dots> \<longleftrightarrow> b = j \<and> i < a \<and> a \<le> i + int (Suc k)"
    by auto
  finally show ?case .
qed

lemma distinct_uline_right: "distinct (uline (i, j) (1, 0) k)"
proof (induction k arbitrary: i)
  case 0
  show ?case by simp
next
  case (Suc k)
  have "(i + 1, j) \<notin> set (uline (i + 1, j) (1, 0) k)"
    by (simp add: uline_right)
  with Suc.IH[of "i + 1"] show ?case by simp
qed

lemma uline_down: "(a, b) \<in> set (uline (i, j) (0, 1) k) \<longleftrightarrow> a = i \<and> j < b \<and> b \<le> j + int k"
proof (induction k arbitrary: j)
  case 0
  show ?case by simp
next
  case (Suc k)
  have "(a, b) \<in> set (uline (i, j) (0, 1) (Suc k)) \<longleftrightarrow>
        (a = i \<and> b = j + 1) \<or> (a, b) \<in> set (uline (i, j + 1) (0, 1) k)"
    by simp
  also have "\<dots> \<longleftrightarrow> (a = i \<and> b = j + 1) \<or> (a = i \<and> j + 1 < b \<and> b \<le> j + 1 + int k)"
    unfolding Suc.IH ..
  also have "\<dots> \<longleftrightarrow> a = i \<and> j < b \<and> b \<le> j + int (Suc k)"
    by auto
  finally show ?case .
qed

lemma distinct_uline_down: "distinct (uline (i, j) (0, 1) k)"
proof (induction k arbitrary: j)
  case 0
  show ?case by simp
next
  case (Suc k)
  have "(i, j + 1) \<notin> set (uline (i, j + 1) (0, 1) k)"
    by (simp add: uline_down)
  with Suc.IH[of "j + 1"] show ?case by simp
qed

lemma uline_left: "(a, b) \<in> set (uline (i, j) (-1, 0) k) \<longleftrightarrow> b = j \<and> i - int k \<le> a \<and> a < i"
proof (induction k arbitrary: i)
  case 0
  show ?case by simp
next
  case (Suc k)
  have "(a, b) \<in> set (uline (i, j) (-1, 0) (Suc k)) \<longleftrightarrow>
        (a = i - 1 \<and> b = j) \<or> (a, b) \<in> set (uline (i - 1, j) (-1, 0) k)"
    by simp
  also have "\<dots> \<longleftrightarrow> (a = i - 1 \<and> b = j) \<or> (b = j \<and> i - 1 - int k \<le> a \<and> a < i - 1)"
    unfolding Suc.IH ..
  also have "\<dots> \<longleftrightarrow> b = j \<and> i - int (Suc k) \<le> a \<and> a < i"
    by auto
  finally show ?case .
qed

lemma distinct_uline_left: "distinct (uline (i, j) (-1, 0) k)"
proof (induction k arbitrary: i)
  case 0
  show ?case by simp
next
  case (Suc k)
  have "(i - 1, j) \<notin> set (uline (i - 1, j) (-1, 0) k)"
    by (simp add: uline_left)
  with Suc.IH[of "i - 1"] show ?case by simp
qed

lemma uline_up: "(a, b) \<in> set (uline (i, j) (0, -1) k) \<longleftrightarrow> a = i \<and> j - int k \<le> b \<and> b < j"
proof (induction k arbitrary: j)
  case 0
  show ?case by simp
next
  case (Suc k)
  have "(a, b) \<in> set (uline (i, j) (0, -1) (Suc k)) \<longleftrightarrow>
        (a = i \<and> b = j - 1) \<or> (a, b) \<in> set (uline (i, j - 1) (0, -1) k)"
    by simp
  also have "\<dots> \<longleftrightarrow> (a = i \<and> b = j - 1) \<or> (a = i \<and> j - 1 - int k \<le> b \<and> b < j - 1)"
    unfolding Suc.IH ..
  also have "\<dots> \<longleftrightarrow> a = i \<and> j - int (Suc k) \<le> b \<and> b < j"
    by auto
  finally show ?case .
qed

lemma distinct_uline_up: "distinct (uline (i, j) (0, -1) k)"
proof (induction k arbitrary: j)
  case 0
  show ?case by simp
next
  case (Suc k)
  have "(i, j - 1) \<notin> set (uline (i, j - 1) (0, -1) k)"
    by (simp add: uline_up)
  with Suc.IH[of "j - 1"] show ?case by simp
qed

lemma segment_grid:
  "segment B s (dx, dy) n (gp cx cy s (i, j)) = (ps, r) \<Longrightarrow>
     \<exists>k\<le>n. ps = map (gp cx cy s) (uline (i, j) (dx, dy) k) \<and>
           (\<forall>q. r = Some q \<longrightarrow> k = n \<and> q = gp cx cy s (i + int n * dx, j + int n * dy))"
proof (induction n arbitrary: i j ps r)
  case 0
  then show ?case by (auto simp: gp_def)
next
  case (Suc n)
  let ?p' = "gp cx cy s (i + dx, j + dy)"
  obtain ps' r' where rec: "segment B s (dx, dy) n ?p' = (ps', r')"
    by (cases "segment B s (dx, dy) n ?p'")
  have p': "(cx + i * s + dx * s, cy + j * s + dy * s) = ?p'"
    by (simp add: gp_def algebra_simps)
  have unf: "segment B s (dx, dy) (Suc n) (cx + i * s, cy + j * s) = (ps, r)"
    using Suc.prems by (simp add: gp_def)
  from unf consider (out) "ps = []" "r = None" | (edge) "ps = [?p']" "r = None"
    | (go) "ps = ?p' # ps'" "r = r'"
    unfolding segment.simps Let_def p' rec
    by (auto split: if_splits)
  then show ?case
  proof cases
    case out
    then show ?thesis by (intro exI[of _ 0]) simp
  next
    case edge
    then show ?thesis by (intro exI[of _ "Suc 0"]) simp
  next
    case go
    from Suc.IH[OF rec] obtain k where k: "k \<le> n"
      "ps' = map (gp cx cy s) (uline (i + dx, j + dy) (dx, dy) k)"
      "\<forall>q. r' = Some q \<longrightarrow> k = n \<and> q = gp cx cy s (i + dx + int n * dx, j + dy + int n * dy)"
      by blast
    show ?thesis
    proof (intro exI[of _ "Suc k"] conjI allI impI)
      show "Suc k \<le> Suc n" using k(1) by simp
      show "ps = map (gp cx cy s) (uline (i, j) (dx, dy) (Suc k))"
        using go(1) k(2) by simp
    next
      fix q assume "r = Some q"
      with go(2) k(3) have "k = n" "q = gp cx cy s (i + dx + int n * dx, j + dy + int n * dy)"
        by blast+
      then show "Suc k = Suc n" "q = gp cx cy s (i + int (Suc n) * dx, j + int (Suc n) * dy)"
        by (simp_all add: algebra_simps)
    qed
  qed
qed

lemma segment_inside:
  "segment B s (dx, dy) n (x, y) = (ps, r) \<Longrightarrow> (a, b) \<in> set ps \<Longrightarrow>
     x_min B \<le> a \<and> a \<le> x_max B \<and> y_min B \<le> b \<and> b \<le> y_max B"
proof (induction n arbitrary: x y ps r)
  case 0
  then show ?case by simp
next
  case (Suc n)
  obtain ps' r' where rec: "segment B s (dx, dy) n (x + dx * s, y + dy * s) = (ps', r')"
    by (cases "segment B s (dx, dy) n (x + dx * s, y + dy * s)")
  from Suc.prems(1) consider "ps = []"
    | "ps = [(x + dx * s, y + dy * s)]" "x_min B \<le> x + dx * s" "x + dx * s \<le> x_max B"
        "y_min B \<le> y + dy * s" "y + dy * s \<le> y_max B"
    | "ps = (x + dx * s, y + dy * s) # ps'" "r = r'" "x_min B \<le> x + dx * s" "x + dx * s \<le> x_max B"
        "y_min B \<le> y + dy * s" "y + dy * s \<le> y_max B"
    unfolding segment.simps Let_def rec by (auto split: if_splits)
  then show ?case
  proof cases
    case 1
    then show ?thesis using Suc.prems(2) by simp
  next
    case 2
    then show ?thesis using Suc.prems(2) by simp
  next
    case 3
    show ?thesis
    proof (cases "(a, b) = (x + dx * s, y + dy * s)")
      case True
      then show ?thesis using 3 by simp
    next
      case False
      then have "(a, b) \<in> set ps'" using 3(1) Suc.prems(2) by auto
      from Suc.IH[OF rec this] show ?thesis .
    qed
  qed
qed

text \<open>
  The state at the start of each round of \<^verbatim>\<open>while True\<close>, in grid indices: with
  \<open>m = segment_length div 2\<close> the generator stands at \<open>(-m, -m)\<close> heading right when
  \<open>segment_length\<close> is odd, and at \<open>(m, m)\<close> heading left when it is even; \<open>seen\<close> is the set
  of indices yielded so far.
\<close>

definition start_idx :: "nat \<Rightarrow> int \<times> int" where
  "start_idx n = (let m = int n div 2 in if odd n then (- m, - m) else (m, m))"

definition start_dir :: "nat \<Rightarrow> nat" where
  "start_dir n = (if odd n then 0 else 2)"

definition seen :: "nat \<Rightarrow> (int \<times> int) set" where
  "seen n = (let m = int n div 2 in
     (if odd n then {(i, j). - m \<le> i \<and> i \<le> m \<and> - m < j \<and> j \<le> m}
      else {(i, j). - m < i \<and> i \<le> m \<and> - m < j \<and> j < m}) \<union> {start_idx n})"

lemma odd_half: "int n = 2 * m + 1 \<Longrightarrow> odd n \<and> int n div 2 = m"
  by presburger

lemma even_half: "int n = 2 * m \<Longrightarrow> even n \<and> int n div 2 = m"
  by presburger

lemma mem_seen_odd:
  assumes "int n = 2 * m + 1"
  shows "(a, b) \<in> seen n \<longleftrightarrow> (- m \<le> a \<and> a \<le> m \<and> - m < b \<and> b \<le> m) \<or> (a = - m \<and> b = - m)"
  using odd_half[OF assms] by (auto simp: seen_def start_idx_def Let_def)

lemma mem_seen_even:
  assumes "int n = 2 * m"
  shows "(a, b) \<in> seen n \<longleftrightarrow> (- m < a \<and> a \<le> m \<and> - m < b \<and> b < m) \<or> (a = m \<and> b = m)"
  using even_half[OF assms] by (auto simp: seen_def start_idx_def Let_def)

lemma odd_round:
  assumes n: "int n = 2 * m + 1" and k1: "k1 \<le> n" and k2: "k2 \<le> n"
  shows "set (uline (- m, - m) (1, 0) k1) \<inter> seen n = {}"
    and "set (uline (m + 1, - m) (0, 1) k2) \<inter> seen n = {}"
    and "set (uline (- m, - m) (1, 0) k1) \<inter> set (uline (m + 1, - m) (0, 1) k2) = {}"
    and "set (uline (- m, - m) (1, 0) k1) \<subseteq> seen (Suc n)"
    and "set (uline (m + 1, - m) (0, 1) k2) \<subseteq> seen (Suc n)"
    and "seen n \<subseteq> seen (Suc n)"
proof -
  have n1: "int (Suc n) = 2 * (m + 1)" using n by simp
  have i1: "int k1 \<le> 2 * m + 1" and i2: "int k2 \<le> 2 * m + 1" using n k1 k2 by linarith+
  note ms = mem_seen_odd[OF n] mem_seen_even[OF n1]
  show "set (uline (- m, - m) (1, 0) k1) \<inter> seen n = {}"
    by (auto simp: uline_right ms)
  show "set (uline (m + 1, - m) (0, 1) k2) \<inter> seen n = {}"
    by (auto simp: uline_down ms)
  show "set (uline (- m, - m) (1, 0) k1) \<inter> set (uline (m + 1, - m) (0, 1) k2) = {}"
    by (auto simp: uline_right uline_down)
  show "set (uline (- m, - m) (1, 0) k1) \<subseteq> seen (Suc n)"
    using i1 by (auto simp: uline_right ms)
  show "set (uline (m + 1, - m) (0, 1) k2) \<subseteq> seen (Suc n)"
    using i2 by (auto simp: uline_down ms)
  show "seen n \<subseteq> seen (Suc n)"
    using i1 by (auto simp: ms)
qed

lemma even_round:
  assumes n: "int n = 2 * m" and k1: "k1 \<le> n" and k2: "k2 \<le> n"
  shows "set (uline (m, m) (-1, 0) k1) \<inter> seen n = {}"
    and "set (uline (- m, m) (0, -1) k2) \<inter> seen n = {}"
    and "set (uline (m, m) (-1, 0) k1) \<inter> set (uline (- m, m) (0, -1) k2) = {}"
    and "set (uline (m, m) (-1, 0) k1) \<subseteq> seen (Suc n)"
    and "set (uline (- m, m) (0, -1) k2) \<subseteq> seen (Suc n)"
    and "seen n \<subseteq> seen (Suc n)"
proof -
  have n1: "int (Suc n) = 2 * m + 1" using n by simp
  have i1: "int k1 \<le> 2 * m" and i2: "int k2 \<le> 2 * m" using n k1 k2 by linarith+
  note ms = mem_seen_even[OF n] mem_seen_odd[OF n1]
  show "set (uline (m, m) (-1, 0) k1) \<inter> seen n = {}"
    by (auto simp: uline_left ms)
  show "set (uline (- m, m) (0, -1) k2) \<inter> seen n = {}"
    by (auto simp: uline_up ms)
  show "set (uline (m, m) (-1, 0) k1) \<inter> set (uline (- m, m) (0, -1) k2) = {}"
    by (auto simp: uline_left uline_up)
  show "set (uline (m, m) (-1, 0) k1) \<subseteq> seen (Suc n)"
    using i1 by (auto simp: uline_left ms)
  show "set (uline (- m, m) (0, -1) k2) \<subseteq> seen (Suc n)"
    using i2 by (auto simp: uline_up ms)
  show "seen n \<subseteq> seen (Suc n)"
    using i1 by (auto simp: ms)
qed

lemma start_odd:
  assumes "int n = 2 * m + 1"
  shows "start_idx n = (- m, - m)" "start_dir n = 0"
    "start_idx (Suc n) = (m + 1, m + 1)" "start_dir (Suc n) = 2"
proof -
  have "int (Suc n) = 2 * (m + 1)" using assms by simp
  from odd_half[OF assms] even_half[OF this]
  show "start_idx n = (- m, - m)" "start_dir n = 0"
    "start_idx (Suc n) = (m + 1, m + 1)" "start_dir (Suc n) = 2"
    by (simp_all add: start_idx_def start_dir_def Let_def)
qed

lemma start_even:
  assumes "int n = 2 * m"
  shows "start_idx n = (m, m)" "start_dir n = 2"
    "start_idx (Suc n) = (- m, - m)" "start_dir (Suc n) = 0"
proof -
  have "int (Suc n) = 2 * m + 1" using assms by simp
  from even_half[OF assms] odd_half[OF this]
  show "start_idx n = (m, m)" "start_dir n = 2"
    "start_idx (Suc n) = (- m, - m)" "start_dir (Suc n) = 0"
    by (simp_all add: start_idx_def start_dir_def Let_def)
qed

lemma round_decreases:
  assumes s: "0 < s" and n: "1 \<le> n"
    and seg: "segment B s d n p = (ps, Some q)" and d: "d \<in> set directions"
  shows "nat (span B + 1 - (int (Suc n) - 1) * s) < nat (span B + 1 - (int n - 1) * s)"
proof -
  obtain k where k: "n = Suc k" using n by (cases n) auto
  from segment_complete_span[OF seg[unfolded k] d] have "int k * s < span B" .
  then show ?thesis using s by (simp add: k algebra_simps)
qed

lemma spiral_loop_grid:
  assumes s: "0 < s"
  shows "1 \<le> n \<Longrightarrow>
    \<exists>idxs. spiral_loop B s (gp cx cy s (start_idx n)) (start_dir n) n = Some (map (gp cx cy s) idxs)
      \<and> distinct idxs \<and> set idxs \<inter> seen n = {}"
proof (induction "nat (span B + 1 - (int n - 1) * s)" arbitrary: n rule: less_induct)
  case less
  let ?g = "gp cx cy s"
  define m where "m = int n div 2"
  have IH: "\<exists>idxs. spiral_loop B s (?g (start_idx (Suc n))) (start_dir (Suc n)) (Suc n)
                = Some (map ?g idxs) \<and> distinct idxs \<and> set idxs \<inter> seen (Suc n) = {}"
    if "segment B s d n p = (ps, Some q)" "d \<in> set directions" for d p ps q
    using less.hyps[OF round_decreases[OF s less.prems that]] by simp
  show ?case
  proof (cases "odd n")
    case True
    then have n: "int n = 2 * m + 1" unfolding m_def by presburger
    note st = start_odd[OF n]
    obtain ps1 r1 where s1: "segment B s (1, 0) n (?g (- m, - m)) = (ps1, r1)"
      by (cases "segment B s (1, 0) n (?g (- m, - m))")
    from segment_grid[OF s1] obtain k1 where k1: "k1 \<le> n"
      "ps1 = map ?g (uline (- m, - m) (1, 0) k1)"
      and e1: "\<And>q. r1 = Some q \<Longrightarrow> q = ?g (- m + int n * 1, - m + int n * 0)"
      by blast
    let ?l1 = "uline (- m, - m) (1, 0) k1"
    show ?thesis
    proof (cases r1)
      case None
      have "spiral_loop B s (?g (start_idx n)) (start_dir n) n = Some (map ?g ?l1)"
        by (subst spiral_loop.simps) (simp add: st directions_def s1 None k1(2))
      then show ?thesis
        using distinct_uline_right[of "- m" "- m" k1] odd_round(1)[OF n k1(1) k1(1)] by blast
    next
      case r1: (Some p1)
      have p1: "p1 = ?g (m + 1, - m)" using e1[OF r1] n by simp
      obtain ps2 r2 where s2: "segment B s (0, 1) n (?g (m + 1, - m)) = (ps2, r2)"
        by (cases "segment B s (0, 1) n (?g (m + 1, - m))")
      from segment_grid[OF s2] obtain k2 where k2: "k2 \<le> n"
        "ps2 = map ?g (uline (m + 1, - m) (0, 1) k2)"
        and e2: "\<And>q. r2 = Some q \<Longrightarrow> q = ?g (m + 1 + int n * 0, - m + int n * 1)"
        by blast
      let ?l2 = "uline (m + 1, - m) (0, 1) k2"
      note geo = odd_round[OF n k1(1) k2(1)]
      have d12: "distinct (?l1 @ ?l2)"
        using distinct_uline_right[of "- m" "- m" k1] distinct_uline_down[of "m + 1" "- m" k2] geo(3)
        by simp
      have a12: "set (?l1 @ ?l2) \<inter> seen n = {}" using geo(1,2) by auto
      show ?thesis
      proof (cases r2)
        case None
        have "spiral_loop B s (?g (start_idx n)) (start_dir n) n = Some (map ?g (?l1 @ ?l2))"
          by (subst spiral_loop.simps)
            (simp add: st directions_def s1 r1 p1 s2 None k1(2) k2(2) Let_def)
        then show ?thesis using d12 a12 by blast
      next
        case r2: (Some p2)
        have p2: "p2 = ?g (m + 1, m + 1)" using e2[OF r2] n by simp
        have "(1, 0) \<in> set directions" by (simp add: directions_def)
        from IH[OF s1[unfolded r1] this] obtain idxs where
          rest: "spiral_loop B s (?g (m + 1, m + 1)) (Suc (Suc 0)) (Suc n) = Some (map ?g idxs)"
          and di: "distinct idxs" and ai: "set idxs \<inter> seen (Suc n) = {}"
          unfolding st numeral_2_eq_2 by blast
        have "spiral_loop B s (?g (start_idx n)) (start_dir n) n
                = Some (map ?g (?l1 @ ?l2 @ idxs))"
          by (subst spiral_loop.simps)
            (simp add: st directions_def s1 r1 p1 s2 r2 p2 rest k1(2) k2(2) Let_def)
        moreover have "distinct (?l1 @ ?l2 @ idxs)"
          using d12 di ai geo(4,5) by auto
        moreover have "set (?l1 @ ?l2 @ idxs) \<inter> seen n = {}"
          using a12 ai geo(6) by auto
        ultimately show ?thesis by blast
      qed
    qed
  next
    case False
    then have n: "int n = 2 * m" unfolding m_def by presburger
    note st = start_even[OF n]
    obtain ps1 r1 where s1: "segment B s (-1, 0) n (?g (m, m)) = (ps1, r1)"
      by (cases "segment B s (-1, 0) n (?g (m, m))")
    from segment_grid[OF s1] obtain k1 where k1: "k1 \<le> n"
      "ps1 = map ?g (uline (m, m) (-1, 0) k1)"
      and e1: "\<And>q. r1 = Some q \<Longrightarrow> q = ?g (m + int n * (-1), m + int n * 0)"
      by blast
    let ?l1 = "uline (m, m) (-1, 0) k1"
    show ?thesis
    proof (cases r1)
      case None
      have "spiral_loop B s (?g (start_idx n)) (start_dir n) n = Some (map ?g ?l1)"
        by (subst spiral_loop.simps) (simp add: st directions_def s1 None k1(2))
      then show ?thesis
        using distinct_uline_left[of m m k1] even_round(1)[OF n k1(1) k1(1)] by blast
    next
      case r1: (Some p1)
      have p1: "p1 = ?g (- m, m)" using e1[OF r1] n by simp
      obtain ps2 r2 where s2: "segment B s (0, -1) n (?g (- m, m)) = (ps2, r2)"
        by (cases "segment B s (0, -1) n (?g (- m, m))")
      from segment_grid[OF s2] obtain k2 where k2: "k2 \<le> n"
        "ps2 = map ?g (uline (- m, m) (0, -1) k2)"
        and e2: "\<And>q. r2 = Some q \<Longrightarrow> q = ?g (- m + int n * 0, m + int n * (-1))"
        by blast
      let ?l2 = "uline (- m, m) (0, -1) k2"
      note geo = even_round[OF n k1(1) k2(1)]
      have d12: "distinct (?l1 @ ?l2)"
        using distinct_uline_left[of m m k1] distinct_uline_up[of "- m" m k2] geo(3)
        by simp
      have a12: "set (?l1 @ ?l2) \<inter> seen n = {}" using geo(1,2) by auto
      show ?thesis
      proof (cases r2)
        case None
        have "spiral_loop B s (?g (start_idx n)) (start_dir n) n = Some (map ?g (?l1 @ ?l2))"
          by (subst spiral_loop.simps)
            (simp add: st directions_def s1 r1 p1 s2 None k1(2) k2(2) Let_def)
        then show ?thesis using d12 a12 by blast
      next
        case r2: (Some p2)
        have p2: "p2 = ?g (- m, - m)" using e2[OF r2] n by simp
        have "(-1, 0) \<in> set directions" by (simp add: directions_def)
        from IH[OF s1[unfolded r1] this] obtain idxs where
          rest: "spiral_loop B s (?g (- m, - m)) 0 (Suc n) = Some (map ?g idxs)"
          and di: "distinct idxs" and ai: "set idxs \<inter> seen (Suc n) = {}"
          unfolding st by blast
        have "spiral_loop B s (?g (start_idx n)) (start_dir n) n
                = Some (map ?g (?l1 @ ?l2 @ idxs))"
          by (subst spiral_loop.simps)
            (simp add: st directions_def s1 r1 p1 s2 r2 p2 rest k1(2) k2(2) Let_def)
        moreover have "distinct (?l1 @ ?l2 @ idxs)"
          using d12 di ai geo(4,5) by auto
        moreover have "set (?l1 @ ?l2 @ idxs) \<inter> seen n = {}"
          using a12 ai geo(6) by auto
        ultimately show ?thesis by blast
      qed
    qed
  qed
qed

definition inside :: "bounds \<Rightarrow> point \<Rightarrow> bool" where
  "inside B p \<longleftrightarrow> x_min B \<le> fst p \<and> fst p \<le> x_max B \<and> y_min B \<le> snd p \<and> snd p \<le> y_max B"

lemma segment_all_inside:
  assumes "segment B s d n p = (ps, r)"
  shows "\<forall>q\<in>set ps. inside B q"
proof -
  obtain dx dy x y where "d = (dx, dy)" "p = (x, y)" by (cases d, cases p) 
  with assms have "segment B s (dx, dy) n (x, y) = (ps, r)" by simp
  from segment_inside[OF this] show ?thesis by (auto simp: inside_def)
qed

lemma spiral_loop_inside:
  assumes "spiral_loop B s p d n = Some pts"
  shows "\<forall>q\<in>set pts. inside B q"
proof (rule spiral_loop.raw_induct[where P = "\<lambda>B (s::int) (p::point) (d::nat) (n::nat) pts. \<forall>q\<in>set pts. inside B q", OF _ assms])
  fix loop :: "bounds \<Rightarrow> int \<Rightarrow> point \<Rightarrow> nat \<Rightarrow> nat \<Rightarrow> point list option"
    and B :: bounds and s :: int and p :: point and d n :: nat and pts :: "point list"
  assume IH: "\<And>B s p d n pts. loop B s p d n = Some pts \<Longrightarrow> \<forall>q\<in>set pts. inside B q"
  assume body: "(case segment B s (directions ! d) n p of
        (ps1, None) \<Rightarrow> Some ps1
      | (ps1, Some p1) \<Rightarrow>
          (let direction1 = (d + 1) mod 4 in
           case segment B s (directions ! direction1) n p1 of
             (ps2, None) \<Rightarrow> Some (ps1 @ ps2)
           | (ps2, Some p2) \<Rightarrow>
               (let direction2 = (direction1 + 1) mod 4 in
                Option.bind (loop B s p2 direction2 (n + 1))
                  (\<lambda>rest. Some (ps1 @ ps2 @ rest))))) = Some pts"
  obtain ps1 r1 where s1: "segment B s (directions ! d) n p = (ps1, r1)"
    by (cases "segment B s (directions ! d) n p")
  note i1 = segment_all_inside[OF s1]
  show "\<forall>q\<in>set pts. inside B q"
  proof (cases r1)
    case None
    with body s1 have "pts = ps1" by simp
    with i1 show ?thesis by simp
  next
    case r1: (Some p1)
    obtain ps2 r2 where s2: "segment B s (directions ! ((d + 1) mod 4)) n p1 = (ps2, r2)"
      by (cases "segment B s (directions ! ((d + 1) mod 4)) n p1")
    note i2 = segment_all_inside[OF s2]
    show ?thesis
    proof (cases r2)
      case None
      with body s1 r1 s2 have "pts = ps1 @ ps2" by (simp add: Let_def)
      with i1 i2 show ?thesis by auto
    next
      case r2: (Some p2)
      from body s1 r1 s2 r2 obtain rest where
        rest: "loop B s p2 (((d + 1) mod 4 + 1) mod 4) (n + 1) = Some rest"
        and pts: "pts = ps1 @ ps2 @ rest"
        by (auto simp: Let_def bind_eq_Some_conv)
      from IH[OF rest] i1 i2 pts show ?thesis by auto
    qed
  qed
qed

section \<open>The inner square of the spiral\<close>

text \<open>
  While the spiral stays strictly inside the bounding box neither \<^verbatim>\<open>return\<close> is taken,
  so the generator yields every grid point of a square around the centre that lies
  strictly inside the box.
\<close>

definition strictly_inside :: "bounds \<Rightarrow> point \<Rightarrow> bool" where
  "strictly_inside B p \<longleftrightarrow>
     x_min B < fst p \<and> fst p < x_max B \<and> y_min B < snd p \<and> snd p < y_max B"

lemma uline_Suc_subset:
  "set (uline (i + dx, j + dy) (dx, dy) t) \<subseteq> set (uline (i, j) (dx, dy) (Suc t))"
  by auto

lemma segment_prefix:
  "segment B s (dx, dy) n (gp cx cy s (i, j)) = (ps, r) \<Longrightarrow> t \<le> n \<Longrightarrow>
   \<forall>q\<in>set (uline (i, j) (dx, dy) t). strictly_inside B (gp cx cy s q) \<Longrightarrow>
   \<exists>k. t \<le> k \<and> k \<le> n \<and> ps = map (gp cx cy s) (uline (i, j) (dx, dy) k) \<and>
       (t = n \<longrightarrow> r = Some (gp cx cy s (i + int n * dx, j + int n * dy)))"
proof (induction n arbitrary: i j t ps r)
  case 0
  then show ?case by (auto simp: gp_def)
next
  case (Suc n)
  show ?case
  proof (cases t)
    case 0
    from segment_grid[OF Suc.prems(1)] obtain k where
      "k \<le> Suc n" "ps = map (gp cx cy s) (uline (i, j) (dx, dy) k)" by blast
    with 0 show ?thesis by auto
  next
    case t: (Suc t')
    let ?p' = "gp cx cy s (i + dx, j + dy)"
    obtain ps' r' where rec: "segment B s (dx, dy) n ?p' = (ps', r')"
      by (cases "segment B s (dx, dy) n ?p'")
    have p': "(cx + i * s + dx * s, cy + j * s + dy * s) = ?p'"
      by (simp add: gp_def algebra_simps)
    have "strictly_inside B ?p'" using Suc.prems(3) t by simp
    then have st: "x_min B < cx + i * s + dx * s" "cx + i * s + dx * s < x_max B"
      "y_min B < cy + j * s + dy * s" "cy + j * s + dy * s < y_max B"
      unfolding p'[symmetric] strictly_inside_def by simp_all
    have unf: "segment B s (dx, dy) (Suc n) (cx + i * s, cy + j * s) = (ps, r)"
      using Suc.prems(1) by (simp add: gp_def)
    have go: "ps = ?p' # ps'" "r = r'"
      using unf st unfolding segment.simps Let_def p' rec by (auto split: if_splits)
    have "\<forall>q\<in>set (uline (i + dx, j + dy) (dx, dy) t'). strictly_inside B (gp cx cy s q)"
      using Suc.prems(3) uline_Suc_subset[of i dx j dy t'] unfolding t by blast
    moreover have "t' \<le> n" using Suc.prems(2) t by simp
    ultimately obtain k where k: "t' \<le> k" "k \<le> n"
      "ps' = map (gp cx cy s) (uline (i + dx, j + dy) (dx, dy) k)"
      "t' = n \<longrightarrow> r' = Some (gp cx cy s (i + dx + int n * dx, j + dy + int n * dy))"
      using Suc.IH[OF rec, of t'] by blast
    show ?thesis
    proof (intro exI[of _ "Suc k"] conjI impI)
      show "t \<le> Suc k" "Suc k \<le> Suc n" using k(1,2) t by simp_all
      show "ps = map (gp cx cy s) (uline (i, j) (dx, dy) (Suc k))" using go(1) k(3) by simp
    next
      assume "t = Suc n"
      then have "t' = n" using t by simp
      with k(4) go(2) show "r = Some (gp cx cy s (i + int (Suc n) * dx, j + int (Suc n) * dy))"
        by (simp add: algebra_simps)
    qed
  qed
qed

lemma spiral_loop_unfold:
  assumes "spiral_loop B s p d n = Some pts"
    and "segment B s (directions ! d) n p = (ps1, r1)"
  shows "(r1 = None \<and> pts = ps1) \<or>
         (\<exists>p1 ps2 r2. r1 = Some p1 \<and> segment B s (directions ! ((d + 1) mod 4)) n p1 = (ps2, r2) \<and>
            ((r2 = None \<and> pts = ps1 @ ps2) \<or>
             (\<exists>p2 rest. r2 = Some p2 \<and>
                spiral_loop B s p2 (((d + 1) mod 4 + 1) mod 4) (Suc n) = Some rest \<and>
                pts = ps1 @ ps2 @ rest)))"
proof -
  note u = assms(1)[unfolded spiral_loop.simps[of B s p d n]]
  show ?thesis
  proof (cases r1)
    case None
    with u assms(2) show ?thesis by simp
  next
    case r1: (Some p1)
    obtain ps2 r2 where s2: "segment B s (directions ! ((d + 1) mod 4)) n p1 = (ps2, r2)"
      by (cases "segment B s (directions ! ((d + 1) mod 4)) n p1")
    show ?thesis
    proof (cases r2)
      case None
      with u assms(2) r1 s2 show ?thesis by (simp add: Let_def)
    next
      case r2: (Some p2)
      from u assms(2) r1 s2 r2 obtain rest where
        "spiral_loop B s p2 (((d + 1) mod 4 + 1) mod 4) (Suc n) = Some rest" "pts = ps1 @ ps2 @ rest"
        by (auto simp: Let_def bind_eq_Some_conv)
      with r1 s2 r2 show ?thesis by blast
    qed
  qed
qed


lemma uline_mono: "t \<le> k \<Longrightarrow> set (uline (i, j) (dx, dy) t) \<subseteq> set (uline (i, j) (dx, dy) k)"
proof (induction t arbitrary: i j k)
  case 0
  show ?case by simp
next
  case (Suc t)
  then obtain k' where k: "k = Suc k'" "t \<le> k'" by (cases k) auto
  from Suc.IH[OF k(2), of "i + dx" "j + dy"] show ?case unfolding k(1) by auto
qed

lemma segment_reaches:
  assumes "segment B s (dx, dy) n (gp cx cy s (i, j)) = (ps, r)" and "t \<le> n"
    and "\<forall>q\<in>set (uline (i, j) (dx, dy) t). strictly_inside B (gp cx cy s q)"
  shows "gp cx cy s ` set (uline (i, j) (dx, dy) t) \<subseteq> set ps"
    and "t = n \<Longrightarrow> r = Some (gp cx cy s (i + int n * dx, j + int n * dy))"
proof -
  from segment_prefix[OF assms] obtain k where k: "t \<le> k"
    "ps = map (gp cx cy s) (uline (i, j) (dx, dy) k)"
    "t = n \<longrightarrow> r = Some (gp cx cy s (i + int n * dx, j + int n * dy))" by blast
  from uline_mono[OF k(1), of i j dx dy] k(2)
  show "gp cx cy s ` set (uline (i, j) (dx, dy) t) \<subseteq> set ps" by auto
  show "t = n \<Longrightarrow> r = Some (gp cx cy s (i + int n * dx, j + int n * dy))" using k(3) by simp
qed

definition square_inside :: "bounds \<Rightarrow> int \<Rightarrow> int \<Rightarrow> int \<Rightarrow> int \<Rightarrow> bool" where
  "square_inside B cx cy s K \<longleftrightarrow>
     (\<forall>i j. \<bar>i\<bar> \<le> K \<and> \<bar>j\<bar> \<le> K \<longrightarrow> strictly_inside B (gp cx cy s (i, j)))"

lemma reach_right:
  assumes sq: "square_inside B cx cy s K"
    and seg: "segment B s (1, 0) n (gp cx cy s (i, j)) = (ps, r)"
    and a: "i < a" "a \<le> i + int n" and K: "- K \<le> i + 1" "a \<le> K" "\<bar>j\<bar> \<le> K"
  shows "gp cx cy s (a, j) \<in> set ps"
    and "a = i + int n \<Longrightarrow> r = Some (gp cx cy s (i + int n, j))"
proof -
  define t where "t = nat (a - i)"
  have t: "int t = a - i" "t \<le> n" using a by (simp_all add: t_def)
  have st: "\<forall>q\<in>set (uline (i, j) (1, 0) t). strictly_inside B (gp cx cy s q)"
  proof
    fix q assume q: "q \<in> set (uline (i, j) (1, 0) t)"
    obtain u v where uv: "q = (u, v)" by (cases q)
    with q have "v = j" "i < u" "u \<le> i + int t" by (simp_all add: uline_right)
    with K t(1) have "\<bar>u\<bar> \<le> K \<and> \<bar>v\<bar> \<le> K" by linarith
    with sq show "strictly_inside B (gp cx cy s q)" unfolding square_inside_def uv by blast
  qed
  note sr = segment_reaches[OF seg t(2) st]
  have "(a, j) \<in> set (uline (i, j) (1, 0) t)" using a t(1) by (simp add: uline_right)
  with sr(1) show "gp cx cy s (a, j) \<in> set ps" by blast
  assume "a = i + int n"
  then have "t = n" using t(1) by simp
  from sr(2)[OF this] show "r = Some (gp cx cy s (i + int n, j))" by simp
qed

lemma reach_down:
  assumes sq: "square_inside B cx cy s K"
    and seg: "segment B s (0, 1) n (gp cx cy s (i, j)) = (ps, r)"
    and a: "j < b" "b \<le> j + int n" and K: "- K \<le> j + 1" "b \<le> K" "\<bar>i\<bar> \<le> K"
  shows "gp cx cy s (i, b) \<in> set ps"
    and "b = j + int n \<Longrightarrow> r = Some (gp cx cy s (i, j + int n))"
proof -
  define t where "t = nat (b - j)"
  have t: "int t = b - j" "t \<le> n" using a by (simp_all add: t_def)
  have st: "\<forall>q\<in>set (uline (i, j) (0, 1) t). strictly_inside B (gp cx cy s q)"
  proof
    fix q assume q: "q \<in> set (uline (i, j) (0, 1) t)"
    obtain u v where uv: "q = (u, v)" by (cases q)
    with q have "u = i" "j < v" "v \<le> j + int t" by (simp_all add: uline_down)
    with K t(1) have "\<bar>u\<bar> \<le> K \<and> \<bar>v\<bar> \<le> K" by linarith
    with sq show "strictly_inside B (gp cx cy s q)" unfolding square_inside_def uv by blast
  qed
  note sr = segment_reaches[OF seg t(2) st]
  have "(i, b) \<in> set (uline (i, j) (0, 1) t)" using a t(1) by (simp add: uline_down)
  with sr(1) show "gp cx cy s (i, b) \<in> set ps" by blast
  assume "b = j + int n"
  then have "t = n" using t(1) by simp
  from sr(2)[OF this] show "r = Some (gp cx cy s (i, j + int n))" by simp
qed

lemma reach_left:
  assumes sq: "square_inside B cx cy s K"
    and seg: "segment B s (-1, 0) n (gp cx cy s (i, j)) = (ps, r)"
    and a: "a < i" "i - int n \<le> a" and K: "- K \<le> a" "i - 1 \<le> K" "\<bar>j\<bar> \<le> K"
  shows "gp cx cy s (a, j) \<in> set ps"
    and "a = i - int n \<Longrightarrow> r = Some (gp cx cy s (i - int n, j))"
proof -
  define t where "t = nat (i - a)"
  have t: "int t = i - a" "t \<le> n" using a by (simp_all add: t_def)
  have st: "\<forall>q\<in>set (uline (i, j) (-1, 0) t). strictly_inside B (gp cx cy s q)"
  proof
    fix q assume q: "q \<in> set (uline (i, j) (-1, 0) t)"
    obtain u v where uv: "q = (u, v)" by (cases q)
    with q have "v = j" "i - int t \<le> u" "u < i" by (simp_all add: uline_left)
    with K t(1) have "\<bar>u\<bar> \<le> K \<and> \<bar>v\<bar> \<le> K" by linarith
    with sq show "strictly_inside B (gp cx cy s q)" unfolding square_inside_def uv by blast
  qed
  note sr = segment_reaches[OF seg t(2) st]
  have "(a, j) \<in> set (uline (i, j) (-1, 0) t)" using a t(1) by (simp add: uline_left)
  with sr(1) show "gp cx cy s (a, j) \<in> set ps" by blast
  assume "a = i - int n"
  then have "t = n" using t(1) by simp
  from sr(2)[OF this] show "r = Some (gp cx cy s (i - int n, j))" by simp
qed

lemma reach_up:
  assumes sq: "square_inside B cx cy s K"
    and seg: "segment B s (0, -1) n (gp cx cy s (i, j)) = (ps, r)"
    and a: "b < j" "j - int n \<le> b" and K: "- K \<le> b" "j - 1 \<le> K" "\<bar>i\<bar> \<le> K"
  shows "gp cx cy s (i, b) \<in> set ps"
    and "b = j - int n \<Longrightarrow> r = Some (gp cx cy s (i, j - int n))"
proof -
  define t where "t = nat (j - b)"
  have t: "int t = j - b" "t \<le> n" using a by (simp_all add: t_def)
  have st: "\<forall>q\<in>set (uline (i, j) (0, -1) t). strictly_inside B (gp cx cy s q)"
  proof
    fix q assume q: "q \<in> set (uline (i, j) (0, -1) t)"
    obtain u v where uv: "q = (u, v)" by (cases q)
    with q have "u = i" "j - int t \<le> v" "v < j" by (simp_all add: uline_up)
    with K t(1) have "\<bar>u\<bar> \<le> K \<and> \<bar>v\<bar> \<le> K" by linarith
    with sq show "strictly_inside B (gp cx cy s q)" unfolding square_inside_def uv by blast
  qed
  note sr = segment_reaches[OF seg t(2) st]
  have "(i, b) \<in> set (uline (i, j) (0, -1) t)" using a t(1) by (simp add: uline_up)
  with sr(1) show "gp cx cy s (i, b) \<in> set ps" by blast
  assume "b = j - int n"
  then have "t = n" using t(1) by simp
  from sr(2)[OF this] show "r = Some (gp cx cy s (i, j - int n))" by simp
qed

lemma spiral_loop_covers:
  assumes s: "0 < s" and sq: "square_inside B cx cy s K"
  shows "1 \<le> n \<Longrightarrow>
    spiral_loop B s (gp cx cy s (start_idx n)) (start_dir n) n = Some pts \<Longrightarrow>
    \<bar>a\<bar> \<le> K \<Longrightarrow> \<bar>b\<bar> \<le> K \<Longrightarrow> (a, b) \<notin> seen n \<Longrightarrow> gp cx cy s (a, b) \<in> set pts"
proof (induction "nat (span B + 1 - (int n - 1) * s)" arbitrary: n pts rule: less_induct)
  case less
  let ?g = "gp cx cy s"
  define m where "m = int n div 2"
  note aK = less.prems(3) and bK = less.prems(4) and new = less.prems(5)
  have IH: "?g (a, b) \<in> set rest"
    if "segment B s d n p = (ps, Some q)" "d \<in> set directions"
      "spiral_loop B s (?g (start_idx (Suc n))) (start_dir (Suc n)) (Suc n) = Some rest"
      "(a, b) \<notin> seen (Suc n)" for d p ps q rest
    using less.hyps[OF round_decreases[OF s less.prems(1) that(1,2)] _ that(3) aK bK that(4)]
    by simp
  show ?case
  proof (cases "odd n")
    case True
    then have n: "int n = 2 * m + 1" unfolding m_def by presburger
    have m0: "0 \<le> m" using n by linarith
    have n1: "int (Suc n) = 2 * (m + 1)" using n by simp
    note st = start_odd[OF n]
    note ms = mem_seen_odd[OF n] mem_seen_even[OF n1]
    have run: "spiral_loop B s (?g (- m, - m)) 0 n = Some pts"
      using less.prems(2) st by simp
    have d: "directions ! 0 = (1, 0)" "directions ! ((0 + 1) mod 4) = (0, 1)"
      "((0 + 1) mod 4 + 1) mod 4 = (2::nat)" "(1, 0) \<in> set directions"
      by (simp_all add: directions_def)
    obtain ps1 r1 where s1: "segment B s (1, 0) n (?g (- m, - m)) = (ps1, r1)"
      by (cases "segment B s (1, 0) n (?g (- m, - m))")
    note u = spiral_loop_unfold[OF run s1[folded d(1)], unfolded d]
    then have sub1: "set ps1 \<subseteq> set pts" by auto
    have "(b = - m \<and> - m < a \<and> a \<le> m + 1) \<or> (a = m + 1 \<and> - m < b \<and> b \<le> m + 1)
          \<or> (a, b) \<notin> seen (Suc n)"
      using new m0 unfolding ms by presburger
    then consider (A) "b = - m" "- m < a" "a \<le> m + 1"
      | (B) "a = m + 1" "- m < b" "b \<le> m + 1"
      | (C) "(a, b) \<notin> seen (Suc n)"
      by blast
    then show ?thesis
    proof cases
      case A
      have "?g (a, - m) \<in> set ps1"
        using A aK bK m0 n by (intro reach_right(1)[OF sq s1]) auto
      with A(1) sub1 show ?thesis by auto
    next
      case B
      have Km: "m + 1 \<le> K" using B(1) aK by linarith
      have "r1 = Some (?g (- m + int n, - m))"
        using Km m0 n by (intro reach_right(2)[OF sq s1, of "m + 1"]) auto
      then have r1: "r1 = Some (?g (m + 1, - m))" using n by simp
      obtain ps2 r2 where s2: "segment B s (0, 1) n (?g (m + 1, - m)) = (ps2, r2)"
        by (cases "segment B s (0, 1) n (?g (m + 1, - m))")
      from u r1 s2 have "(r2 = None \<and> pts = ps1 @ ps2) \<or>
           (\<exists>p2 rest. r2 = Some p2 \<and> spiral_loop B s p2 2 (Suc n) = Some rest \<and>
                       pts = ps1 @ ps2 @ rest)" by auto
      then have sub2: "set ps2 \<subseteq> set pts" by auto
      have "?g (m + 1, b) \<in> set ps2"
        using B bK Km m0 n by (intro reach_down(1)[OF sq s2]) auto
      with B(1) sub2 show ?thesis by auto
    next
      case C
      have Km: "m + 1 \<le> K"
      proof (rule ccontr)
        assume "\<not> m + 1 \<le> K"
        then have "\<bar>a\<bar> \<le> m" "\<bar>b\<bar> \<le> m" using aK bK by linarith+
        then have "(a, b) \<in> seen (Suc n)" by (auto simp: ms)
        with C show False ..
      qed
      have "r1 = Some (?g (- m + int n, - m))"
        using Km m0 n by (intro reach_right(2)[OF sq s1, of "m + 1"]) auto
      then have r1: "r1 = Some (?g (m + 1, - m))" using n by simp
      obtain ps2 r2 where s2: "segment B s (0, 1) n (?g (m + 1, - m)) = (ps2, r2)"
        by (cases "segment B s (0, 1) n (?g (m + 1, - m))")
      from u r1 s2 have u2: "(r2 = None \<and> pts = ps1 @ ps2) \<or>
           (\<exists>p2 rest. r2 = Some p2 \<and> spiral_loop B s p2 2 (Suc n) = Some rest \<and>
                       pts = ps1 @ ps2 @ rest)" by auto
      have "r2 = Some (?g (m + 1, - m + int n))"
        using Km m0 n by (intro reach_down(2)[OF sq s2, of "m + 1"]) auto
      then have r2: "r2 = Some (?g (m + 1, m + 1))" using n by simp
      with u2 obtain rest where
        rest: "spiral_loop B s (?g (m + 1, m + 1)) 2 (Suc n) = Some rest"
        and pts: "pts = ps1 @ ps2 @ rest" by auto
      from IH[OF s1[unfolded r1] d(4) _ C] rest st have "?g (a, b) \<in> set rest" by simp
      with pts show ?thesis by simp
    qed
  next
    case False
    then have n: "int n = 2 * m" unfolding m_def by presburger
    have m0: "1 \<le> m" using n less.prems(1) by linarith
    have n1: "int (Suc n) = 2 * m + 1" using n by simp
    note st = start_even[OF n]
    note ms = mem_seen_even[OF n] mem_seen_odd[OF n1]
    have run: "spiral_loop B s (?g (m, m)) 2 n = Some pts"
      using less.prems(2) st by simp
    have d: "directions ! 2 = (-1, 0)" "directions ! ((2 + 1) mod 4) = (0, -1)"
      "((2 + 1) mod 4 + 1) mod 4 = (0::nat)" "(-1, 0) \<in> set directions"
      by (simp_all add: directions_def)
    obtain ps1 r1 where s1: "segment B s (-1, 0) n (?g (m, m)) = (ps1, r1)"
      by (cases "segment B s (-1, 0) n (?g (m, m))")
    note u = spiral_loop_unfold[OF run s1[folded d(1)], unfolded d]
    then have sub1: "set ps1 \<subseteq> set pts" by auto
    have "(b = m \<and> - m \<le> a \<and> a < m) \<or> (a = - m \<and> - m \<le> b \<and> b < m)
          \<or> (a, b) \<notin> seen (Suc n)"
      using new m0 unfolding ms by presburger
    then consider (A) "b = m" "- m \<le> a" "a < m"
      | (B) "a = - m" "- m \<le> b" "b < m"
      | (C) "(a, b) \<notin> seen (Suc n)"
      by blast
    then show ?thesis
    proof cases
      case A
      have "?g (a, m) \<in> set ps1"
        using A aK bK m0 n by (intro reach_left(1)[OF sq s1]) auto
      with A(1) sub1 show ?thesis by auto
    next
      case B
      have Km: "m \<le> K" using B(1) aK by linarith
      have "r1 = Some (?g (m - int n, m))"
        using Km m0 n by (intro reach_left(2)[OF sq s1, of "- m"]) auto
      then have r1: "r1 = Some (?g (- m, m))" using n by simp
      obtain ps2 r2 where s2: "segment B s (0, -1) n (?g (- m, m)) = (ps2, r2)"
        by (cases "segment B s (0, -1) n (?g (- m, m))")
      from u r1 s2 have "(r2 = None \<and> pts = ps1 @ ps2) \<or>
           (\<exists>p2 rest. r2 = Some p2 \<and> spiral_loop B s p2 0 (Suc n) = Some rest \<and>
                       pts = ps1 @ ps2 @ rest)" by auto
      then have sub2: "set ps2 \<subseteq> set pts" by auto
      have "?g (- m, b) \<in> set ps2"
        using B bK Km m0 n by (intro reach_up(1)[OF sq s2]) auto
      with B(1) sub2 show ?thesis by auto
    next
      case C
      have Km: "m \<le> K"
      proof (rule ccontr)
        assume "\<not> m \<le> K"
        then have "\<bar>a\<bar> \<le> m - 1" "\<bar>b\<bar> \<le> m - 1" using aK bK by linarith+
        then have "(a, b) \<in> seen n" by (auto simp: ms)
        with new show False ..
      qed
      have "r1 = Some (?g (m - int n, m))"
        using Km m0 n by (intro reach_left(2)[OF sq s1, of "- m"]) auto
      then have r1: "r1 = Some (?g (- m, m))" using n by simp
      obtain ps2 r2 where s2: "segment B s (0, -1) n (?g (- m, m)) = (ps2, r2)"
        by (cases "segment B s (0, -1) n (?g (- m, m))")
      from u r1 s2 have u2: "(r2 = None \<and> pts = ps1 @ ps2) \<or>
           (\<exists>p2 rest. r2 = Some p2 \<and> spiral_loop B s p2 0 (Suc n) = Some rest \<and>
                       pts = ps1 @ ps2 @ rest)" by auto
      have "r2 = Some (?g (- m, m - int n))"
        using Km m0 n by (intro reach_up(2)[OF sq s2, of "- m"]) auto
      then have r2: "r2 = Some (?g (- m, - m))" using n by simp
      with u2 obtain rest where
        rest: "spiral_loop B s (?g (- m, - m)) 0 (Suc n) = Some rest"
        and pts: "pts = ps1 @ ps2 @ rest" by auto
      from IH[OF s1[unfolded r1] d(4) _ C] rest st have "?g (a, b) \<in> set rest" by simp
      with pts show ?thesis by simp
    qed
  qed
qed

section \<open>Where the spiral stops\<close>

text \<open>
  The path of the square spiral, with no bounding box: round \<open>n\<close> makes \<open>n\<close> unit moves
  to the right and \<open>n\<close> down when \<open>n\<close> is odd, and \<open>n\<close> to the left and \<open>n\<close> up when \<open>n\<close>
  is even; \<open>spiral_dirs R\<close> are the moves of the rounds 1 to \<open>R\<close>, and \<open>walk p s ds\<close> are the
  positions reached from \<open>p\<close> by the moves \<open>ds\<close>, each of \<open>s\<close> pixels.
\<close>

definition round_dirs :: "nat \<Rightarrow> (int \<times> int) list" where
  "round_dirs n = (if odd n then replicate n (1, 0) @ replicate n (0, 1)
                   else replicate n (-1, 0) @ replicate n (0, -1))"

definition spiral_dirs :: "nat \<Rightarrow> (int \<times> int) list" where
  "spiral_dirs R = concat (map round_dirs [1..<Suc R])"

fun walk :: "point \<Rightarrow> int \<Rightarrow> (int \<times> int) list \<Rightarrow> point list" where
  "walk p s [] = []"
| "walk (x, y) s ((dx, dy) # ds) = (x + dx * s, y + dy * s) # walk (x + dx * s, y + dy * s) s ds"

text \<open>A point that has reached or passed the edge of the box that lies in the direction of the move.\<close>

definition at_forward_edge :: "bounds \<Rightarrow> int \<times> int \<Rightarrow> point \<Rightarrow> bool" where
  "at_forward_edge B d p \<longleftrightarrow>
     (fst d > 0 \<and> fst p \<ge> x_max B) \<or> (fst d < 0 \<and> fst p \<le> x_min B) \<or>
     (snd d > 0 \<and> snd p \<ge> y_max B) \<or> (snd d < 0 \<and> snd p \<le> y_min B)"

text \<open>
  \<open>stops_at B p s ds N\<close>: going from \<open>p\<close> along the moves \<open>ds\<close>, the first \<open>N\<close> positions are
  inside the box, none of them but the last has reached the edge ahead, and either the
  last of them has reached the edge ahead or the position after them is outside the box.
\<close>

definition stops_at :: "bounds \<Rightarrow> point \<Rightarrow> int \<Rightarrow> (int \<times> int) list \<Rightarrow> nat \<Rightarrow> bool" where
  "stops_at B p s ds N \<longleftrightarrow>
     N \<le> length ds \<and>
     list_all (inside B) (take N (walk p s ds)) \<and>
     list_all (\<lambda>(d, q). \<not> at_forward_edge B d q) (take (N - 1) (zip ds (walk p s ds))) \<and>
     ((0 < N \<and> at_forward_edge B (ds ! (N - 1)) (walk p s ds ! (N - 1))) \<or>
      (N < length ds \<and> \<not> inside B (walk p s ds ! N)))"

text \<open>The generator's two checks applied along an arbitrary list of moves.\<close>

fun follow :: "bounds \<Rightarrow> int \<Rightarrow> point \<Rightarrow> (int \<times> int) list \<Rightarrow> point list \<times> point option" where
  "follow B s p [] = ([], Some p)"
| "follow B s (x, y) ((dx, dy) # ds) =
     (let x' = x + dx * s; y' = y + dy * s in
      if x' < x_min B \<or> x' > x_max B \<or> y' < y_min B \<or> y' > y_max B then ([], None)
      else if (dx > 0 \<and> x' \<ge> x_max B) \<or> (dx < 0 \<and> x' \<le> x_min B) \<or>
              (dy > 0 \<and> y' \<ge> y_max B) \<or> (dy < 0 \<and> y' \<le> y_min B) then ([(x', y')], None)
      else (case follow B s (x', y') ds of (ps, r) \<Rightarrow> ((x', y') # ps, r)))"

lemma segment_follow: "segment B s d n p = follow B s p (replicate n d)"
proof (induction n arbitrary: p)
  case 0
  show ?case by (cases d; cases p) simp
next
  case (Suc n)
  obtain dx dy x y where e: "d = (dx, dy)" "p = (x, y)" by (cases d, cases p)
  show ?case unfolding e replicate_Suc segment.simps follow.simps
    using Suc.IH[of "(x + dx * s, y + dy * s)"] by (simp add: e Let_def)
qed

lemma follow_append:
  "follow B s p (ds1 @ ds2) =
     (case follow B s p ds1 of
        (ps, None) \<Rightarrow> (ps, None)
      | (ps, Some q) \<Rightarrow> (case follow B s q ds2 of (ps', r) \<Rightarrow> (ps @ ps', r)))"
proof (induction ds1 arbitrary: p)
  case Nil
  show ?case by (cases "follow B s p ds2") simp
next
  case (Cons d ds1)
  obtain dx dy x y where e: "d = (dx, dy)" "p = (x, y)" by (cases d, cases p)
  show ?case
    unfolding e append_Cons follow.simps Let_def
    by (simp add: Cons.IH split: prod.splits option.splits)
qed

lemma follow_stops:
  "follow B s p ds = (ps, None) \<Longrightarrow> \<exists>N. ps = take N (walk p s ds) \<and> stops_at B p s ds N"
proof (induction ds arbitrary: p ps)
  case Nil
  then show ?case by simp
next
  case (Cons d ds)
  obtain dx dy x y where e: "d = (dx, dy)" "p = (x, y)" by (cases d, cases p)
  let ?p' = "(x + dx * s, y + dy * s)"
  obtain ps' r' where rec: "follow B s ?p' ds = (ps', r')" by (cases "follow B s ?p' ds")
  from Cons.prems consider
      (out) "ps = []" "\<not> inside B ?p'"
    | (edge) "ps = [?p']" "inside B ?p'" "at_forward_edge B (dx, dy) ?p'"
    | (go) "ps = ?p' # ps'" "r' = None" "inside B ?p'" "\<not> at_forward_edge B (dx, dy) ?p'"
    unfolding e follow.simps Let_def rec
    by (auto simp: inside_def at_forward_edge_def split: if_splits)
  then show ?case
  proof cases
    case out
    then show ?thesis
      by (intro exI[of _ 0]) (simp add: stops_at_def e)
  next
    case edge
    then show ?thesis
      by (intro exI[of _ 1]) (simp add: stops_at_def e)
  next
    case go
    from Cons.IH[OF rec[unfolded go(2)]] obtain N where
      N: "ps' = take N (walk ?p' s ds)" "stops_at B ?p' s ds N" by blast
    have "stops_at B p s (d # ds) (Suc N)"
    proof (cases N)
      case 0
      with N(2) go(3,4) show ?thesis by (simp add: stops_at_def e)
    next
      case (Suc M)
      with N(2) go(3,4) show ?thesis by (simp add: stops_at_def e)
    qed
    moreover have "ps = take (Suc N) (walk p s (d # ds))" using go(1) N(1) by (simp add: e)
    ultimately show ?thesis by blast
  qed
qed


lemma round_dirs_directions:
  "round_dirs n = replicate n (directions ! start_dir n)
                   @ replicate n (directions ! ((start_dir n + 1) mod 4))"
  by (simp add: round_dirs_def start_dir_def directions_def)

lemma start_dir_next: "((start_dir n + 1) mod 4 + 1) mod 4 = start_dir (n + 1)"
  by (simp add: start_dir_def)

lemma follow_round:
  assumes "segment B s (directions ! start_dir n) n p = (ps1, r1)"
  shows "follow B s p (round_dirs n) =
     (case r1 of None \<Rightarrow> (ps1, None)
      | Some p1 \<Rightarrow> (case segment B s (directions ! ((start_dir n + 1) mod 4)) n p1 of
                     (ps2, r2) \<Rightarrow> (ps1 @ ps2, r2)))"
  unfolding round_dirs_directions follow_append segment_follow[symmetric] assms
  by (simp split: option.splits)

lemma spiral_loop_follow:
  assumes "spiral_loop B s p d n = Some pts"
  shows "d = start_dir n \<longrightarrow>
         (\<exists>R\<ge>n. follow B s p (concat (map round_dirs [n..<Suc R])) = (pts, None))"
proof (rule spiral_loop.raw_induct[where P = "\<lambda>B (s::int) (p::point) (d::nat) (n::nat) pts.
         d = start_dir n \<longrightarrow>
         (\<exists>R\<ge>n. follow B s p (concat (map round_dirs [n..<Suc R])) = (pts, None))", OF _ assms])
  fix loop :: "bounds \<Rightarrow> int \<Rightarrow> point \<Rightarrow> nat \<Rightarrow> nat \<Rightarrow> point list option"
    and B :: bounds and s :: int and p :: point and d n :: nat and pts :: "point list"
  assume IH: "\<And>B s p d n pts. loop B s p d n = Some pts \<Longrightarrow> d = start_dir n \<longrightarrow>
         (\<exists>R\<ge>n. follow B s p (concat (map round_dirs [n..<Suc R])) = (pts, None))"
  assume body: "(case segment B s (directions ! d) n p of
        (ps1, None) \<Rightarrow> Some ps1
      | (ps1, Some p1) \<Rightarrow>
          (let direction1 = (d + 1) mod 4 in
           case segment B s (directions ! direction1) n p1 of
             (ps2, None) \<Rightarrow> Some (ps1 @ ps2)
           | (ps2, Some p2) \<Rightarrow>
               (let direction2 = (direction1 + 1) mod 4 in
                Option.bind (loop B s p2 direction2 (n + 1))
                  (\<lambda>rest. Some (ps1 @ ps2 @ rest))))) = Some pts"
  show "d = start_dir n \<longrightarrow>
         (\<exists>R\<ge>n. follow B s p (concat (map round_dirs [n..<Suc R])) = (pts, None))"
  proof
    assume d: "d = start_dir n"
    have one: "concat (map round_dirs [n..<Suc n]) = round_dirs n" by simp
    obtain ps1 r1 where s1: "segment B s (directions ! start_dir n) n p = (ps1, r1)"
      by (cases "segment B s (directions ! start_dir n) n p")
    note fr = follow_round[OF s1]
    show "\<exists>R\<ge>n. follow B s p (concat (map round_dirs [n..<Suc R])) = (pts, None)"
    proof (cases r1)
      case None
      with body s1 d have "pts = ps1" by simp
      with fr None have "follow B s p (round_dirs n) = (pts, None)" by simp
      then show ?thesis unfolding one[symmetric] by blast
    next
      case r1: (Some p1)
      obtain ps2 r2 where
        s2: "segment B s (directions ! ((start_dir n + 1) mod 4)) n p1 = (ps2, r2)"
        by (cases "segment B s (directions ! ((start_dir n + 1) mod 4)) n p1")
      from fr r1 s2 have f2: "follow B s p (round_dirs n) = (ps1 @ ps2, r2)" by simp
      show ?thesis
      proof (cases r2)
        case None
        with body s1 d r1 s2 have "pts = ps1 @ ps2" by (simp add: Let_def)
        with f2 None have "follow B s p (round_dirs n) = (pts, None)" by simp
        then show ?thesis unfolding one[symmetric] by blast
      next
        case r2: (Some p2)
        from body s1 d r1 s2 r2 obtain rest where
          rest: "loop B s p2 (((start_dir n + 1) mod 4 + 1) mod 4) (n + 1) = Some rest"
          and pts: "pts = ps1 @ ps2 @ rest"
          by (auto simp: Let_def bind_eq_Some_conv)
        from IH[OF rest] start_dir_next[of n] obtain R where R: "n + 1 \<le> R"
          "follow B s p2 (concat (map round_dirs [n + 1..<Suc R])) = (rest, None)"
          by auto
        have "[n..<Suc R] = n # [n + 1..<Suc R]" using R(1) by (simp add: upt_conv_Cons)
        then have "concat (map round_dirs [n..<Suc R])
                     = round_dirs n @ concat (map round_dirs [n + 1..<Suc R])" by simp
        then have "follow B s p (concat (map round_dirs [n..<Suc R])) = (pts, None)"
          using f2 r2 R(2) pts by (simp add: follow_append)
        moreover have "n \<le> R" using R(1) by simp
        ultimately show ?thesis by blast
      qed
    qed
  qed
qed

lemma spiral_loop_stops:
  assumes "spiral_loop B s p 0 1 = Some pts"
  shows "\<exists>R N. pts = take N (walk p s (spiral_dirs R)) \<and> stops_at B p s (spiral_dirs R) N"
proof -
  have "0 = start_dir 1" by (simp add: start_dir_def)
  with spiral_loop_follow[OF assms] obtain R where
    "follow B s p (concat (map round_dirs [1..<Suc R])) = (pts, None)" by blast
  then have "follow B s p (spiral_dirs R) = (pts, None)" by (simp add: spiral_dirs_def)
  from follow_stops[OF this] show ?thesis by blast
qed

section \<open>The claims about the spiral\<close>

definition box_grid_point :: "int \<Rightarrow> int \<Rightarrow> int \<Rightarrow> int \<Rightarrow> int \<Rightarrow> point \<Rightarrow> bool" where
  "box_grid_point width height lx ly step p \<longleftrightarrow>
     lx \<le> fst p \<and> fst p \<le> width - lx \<and> ly \<le> snd p \<and> snd p \<le> height - ly \<and>
     step dvd (fst p - width div 2) \<and> step dvd (snd p - height div 2)"

text \<open>
  C1. The claim that the generator yields every grid point of the bounding box fails: on a
  2 x 2 canvas with limits [0, 0] and step 1 it yields the centre (1, 1) and (2, 1) and
  returns, although (0, 0) is a grid point of the box [0, 2] x [0, 2].
\<close>

theorem spiral_misses_box_point:
  "spiral 2 2 [0, 0] 1 = Some (Inr [(1, 1), (2, 1)]) \<and>
   (0::int) \<le> 0 \<and> (0::int) \<le> 2 div 2 \<and> (0::int) < 1 \<and>
   box_grid_point 2 2 0 0 1 (0, 0) \<and>
   count_list [(1, 1), (2, 1)] (0::int, 0::int) \<noteq> 1"
  by code_simp

text \<open>
  C1, amended. For limits [lx, ly] with 0 <= lx <= width // 2 and 0 <= ly <= height // 2 and
  a positive step the generator returns; every point it yields is a grid point of the
  bounding box (inside [lx, width - lx] x [ly, height - ly], at a multiple of step from the
  centre in each coordinate), no point is yielded twice, and the centre comes first. It
  yields every grid point at most K steps from the centre in each coordinate, for every K
  such that the square of half-side K * step around the centre lies strictly inside the
  box. After the centre it yields the points of the square spiral in order and stops at
  the first of them that has reached or passed the edge of the box ahead of it, which it
  still yields when it lies inside the box.
\<close>

theorem spiral_points:
  assumes step: "0 < step"
    and lx: "0 \<le> lx" "lx \<le> width div 2" and ly: "0 \<le> ly" "ly \<le> height div 2"
  shows "\<exists>pts. spiral width height [lx, ly] step = Some (Inr pts) \<and>
           distinct pts \<and> hd pts = (width div 2, height div 2) \<and>
           (\<forall>p\<in>set pts. box_grid_point width height lx ly step p) \<and>
           (\<forall>K i j. lx < width div 2 - K * step \<and> width div 2 + K * step < width - lx \<and>
                    ly < height div 2 - K * step \<and> height div 2 + K * step < height - ly \<and>
                    \<bar>i\<bar> \<le> K \<and> \<bar>j\<bar> \<le> K \<longrightarrow>
                    (width div 2 + i * step, height div 2 + j * step) \<in> set pts) \<and>
           (\<exists>R N. pts = (width div 2, height div 2)
                         # take N (walk (width div 2, height div 2) step (spiral_dirs R)) \<and>
                  stops_at \<lparr>x_min = lx, x_max = width - lx, y_min = ly, y_max = height - ly\<rparr>
                    (width div 2, height div 2) step (spiral_dirs R) N)"
proof -
  let ?cx = "width div 2" and ?cy = "height div 2"
  let ?B = "\<lparr>x_min = lx, x_max = width - lx, y_min = ly, y_max = height - ly\<rparr>"
  let ?g = "gp ?cx ?cy step"
  have st: "start_idx 1 = (0, 0)" "start_dir 1 = 0" "seen 1 = {(0, 0)}"
    by (auto simp: start_idx_def start_dir_def seen_def)
  have c: "?g (0, 0) = (?cx, ?cy)" by (simp add: gp_def)
  from spiral_loop_grid[OF step, of 1 ?B ?cx ?cy] obtain idxs where
    run: "spiral_loop ?B step (?cx, ?cy) 0 1 = Some (map ?g idxs)"
    and di: "distinct idxs" and ai: "(0, 0) \<notin> set idxs"
    unfolding st c by auto
  let ?pts = "(?cx, ?cy) # map ?g idxs"
  have sp: "spiral width height [lx, ly] step = Some (Inr ?pts)"
    using run by (simp add: spiral_def Let_def)
  have "inj ?g" using step by (intro gp_inj) simp
  then have "inj_on ?g (set ((0, 0) # idxs))" by (rule inj_on_subset) simp
  moreover have "distinct ((0, 0) # idxs)" using di ai by simp
  ultimately have "distinct (map ?g ((0, 0) # idxs))" by (simp only: distinct_map)
  then have d: "distinct ?pts" by (simp add: c)
  have centre: "inside ?B (?cx, ?cy)"
    using lx ly by (simp add: inside_def) linarith
  have ins: "\<forall>q\<in>set ?pts. inside ?B q"
    using spiral_loop_inside[OF run] centre by simp
  have box: "\<forall>p\<in>set ?pts. box_grid_point width height lx ly step p"
  proof
    fix q assume m: "q \<in> set ?pts"
    then have "q \<in> ?g ` set ((0, 0) # idxs)" using c by auto
    then obtain ij where "q = ?g ij" by blast
    then have "step dvd (fst q - ?cx)" "step dvd (snd q - ?cy)"
      by (simp_all add: gp_def)
    moreover from ins m have "inside ?B q" by blast
    ultimately show "box_grid_point width height lx ly step q"
      by (simp add: inside_def box_grid_point_def)
  qed
  have cover: "(?cx + i * step, ?cy + j * step) \<in> set ?pts"
    if K: "lx < ?cx - K * step" "?cx + K * step < width - lx"
          "ly < ?cy - K * step" "?cy + K * step < height - ly"
      and ij: "\<bar>i\<bar> \<le> K" "\<bar>j\<bar> \<le> K" for K i j
  proof (cases "(i, j) = (0, 0)")
    case True
    then show ?thesis by simp
  next
    case False
    have sq: "square_inside ?B ?cx ?cy step K"
      unfolding square_inside_def
    proof (intro allI impI)
      fix u v :: int assume uv: "\<bar>u\<bar> \<le> K \<and> \<bar>v\<bar> \<le> K"
      have b: "- K \<le> u" "u \<le> K" "- K \<le> v" "v \<le> K" using uv by linarith+
      have s0: "0 \<le> step" using step by simp
      have "(- K) * step \<le> u * step" "u * step \<le> K * step"
        "(- K) * step \<le> v * step" "v * step \<le> K * step"
        by (rule mult_right_mono[OF b(1) s0], rule mult_right_mono[OF b(2) s0],
            rule mult_right_mono[OF b(3) s0], rule mult_right_mono[OF b(4) s0])
      with K show "strictly_inside ?B (?g (u, v))"
        by (simp add: strictly_inside_def gp_def)
    qed
    have run1: "spiral_loop ?B step (?g (start_idx 1)) (start_dir 1) 1 = Some (map ?g idxs)"
      unfolding st c by (rule run)
    have "(i, j) \<notin> seen 1" unfolding st using False by simp
    from spiral_loop_covers[OF step sq _ run1 ij this]
    have "?g (i, j) \<in> set (map ?g idxs)" by simp
    then show ?thesis by (simp add: gp_def)
  qed
  from spiral_loop_stops[OF run] obtain R N where
    stop: "map ?g idxs = take N (walk (?cx, ?cy) step (spiral_dirs R))"
      "stops_at ?B (?cx, ?cy) step (spiral_dirs R) N" by blast
  show ?thesis
  proof (intro exI[of _ ?pts] conjI allI impI)
    show "\<exists>R N. ?pts = (?cx, ?cy) # take N (walk (?cx, ?cy) step (spiral_dirs R)) \<and>
                  stops_at ?B (?cx, ?cy) step (spiral_dirs R) N"
      using stop by blast
    show "spiral width height [lx, ly] step = Some (Inr ?pts)" by (rule sp)
    show "distinct ?pts" by (rule d)
    show "hd ?pts = (?cx, ?cy)" by simp
    show "\<forall>p\<in>set ?pts. box_grid_point width height lx ly step p" by (rule box)
  next
    fix K i j
    assume "lx < ?cx - K * step \<and> ?cx + K * step < width - lx \<and>
            ly < ?cy - K * step \<and> ?cy + K * step < height - ly \<and> \<bar>i\<bar> \<le> K \<and> \<bar>j\<bar> \<le> K"
    then show "(?cx + i * step, ?cy + j * step) \<in> set ?pts"
      using cover[of K i j] by blast
  qed
qed

theorem spiral_points_witness:
  "(0::int) < 5 \<and> (0::int) \<le> 0 \<and> (0::int) \<le> 20 div 2 \<and>
   (\<exists>pts. spiral 20 20 [0, 0] 5 = Some (Inr pts) \<and>
           distinct pts \<and> hd pts = (20 div 2, 20 div 2) \<and>
           (\<forall>p\<in>set pts. box_grid_point 20 20 0 0 5 p) \<and>
           (15, 5) \<in> set pts \<and>
           (\<exists>R N. pts = (20 div 2, 20 div 2) # take N (walk (20 div 2, 20 div 2) 5 (spiral_dirs R)) \<and>
                  stops_at \<lparr>x_min = 0, x_max = 20 - 0, y_min = 0, y_max = 20 - 0\<rparr>
                    (20 div 2, 20 div 2) 5 (spiral_dirs R) N)) \<and>
   spiral 20 20 [0, 0] 5
     = Some (Inr [(10, 10), (15, 10), (15, 15), (10, 15), (5, 15), (5, 10), (5, 5), (10, 5),
                  (15, 5), (20, 5)]) \<and>
   spiral_dirs 2 = [(1, 0), (0, 1), (-1, 0), (-1, 0), (0, -1), (0, -1)] \<and>
   walk (10, 10) 5 (spiral_dirs 2) = [(15, 10), (15, 15), (10, 15), (5, 15), (5, 10), (5, 5)] \<and>
   stops_at \<lparr>x_min = 0, x_max = 20, y_min = 0, y_max = 20\<rparr> (10, 10) 5 (spiral_dirs 3) 9 \<and>
   \<not> stops_at \<lparr>x_min = 0, x_max = 20, y_min = 0, y_max = 20\<rparr> (10, 10) 5 (spiral_dirs 3) 8 \<and>
   \<not> stops_at \<lparr>x_min = 0, x_max = 20, y_min = 0, y_max = 20\<rparr> (10, 10) 5 (spiral_dirs 3) 10"
proof -
  from spiral_points[of 5 0 20 0 20] obtain pts where
    p: "spiral 20 20 [0, 0] 5 = Some (Inr pts)" "distinct pts" "hd pts = (20 div 2, 20 div 2)"
      "\<forall>p\<in>set pts. box_grid_point 20 20 0 0 5 p"
      "\<forall>K i j. (0::int) < 20 div 2 - K * 5 \<and> 20 div 2 + K * 5 < 20 - (0::int) \<and>
               (0::int) < 20 div 2 - K * 5 \<and> 20 div 2 + K * 5 < 20 - (0::int) \<and>
               \<bar>i\<bar> \<le> K \<and> \<bar>j\<bar> \<le> K \<longrightarrow>
               (20 div 2 + i * 5, 20 div 2 + j * 5) \<in> set pts"
      "\<exists>R N. pts = (20 div 2, 20 div 2) # take N (walk (20 div 2, 20 div 2) 5 (spiral_dirs R)) \<and>
                  stops_at \<lparr>x_min = 0, x_max = 20 - 0, y_min = 0, y_max = 20 - 0\<rparr>
                    (20 div 2, 20 div 2) 5 (spiral_dirs R) N"
    by auto
  from p(5)[rule_format, of 1 1 "-1"] have "(15, 5) \<in> set pts" by simp
  with p(1-4,6) have general: "\<exists>pts. spiral 20 20 [0, 0] 5 = Some (Inr pts) \<and>
           distinct pts \<and> hd pts = (20 div 2, 20 div 2) \<and>
           (\<forall>p\<in>set pts. box_grid_point 20 20 0 0 5 p) \<and>
           (15, 5) \<in> set pts \<and>
           (\<exists>R N. pts = (20 div 2, 20 div 2) # take N (walk (20 div 2, 20 div 2) 5 (spiral_dirs R)) \<and>
                  stops_at \<lparr>x_min = 0, x_max = 20 - 0, y_min = 0, y_max = 20 - 0\<rparr>
                    (20 div 2, 20 div 2) 5 (spiral_dirs R) N)"
    by blast
  have run: "spiral 20 20 [0, 0] 5
     = Some (Inr [(10, 10), (15, 10), (15, 15), (10, 15), (5, 15), (5, 10), (5, 5), (10, 5),
                  (15, 5), (20, 5)])"
    by code_simp
  have dirs: "spiral_dirs 2 = [(1, 0), (0, 1), (-1, 0), (-1, 0), (0, -1), (0, -1)]"
    by code_simp
  have path: "walk (10, 10) 5 (spiral_dirs 2) = [(15, 10), (15, 15), (10, 15), (5, 15), (5, 10), (5, 5)]"
    by code_simp
  have s9: "stops_at \<lparr>x_min = 0, x_max = 20, y_min = 0, y_max = 20\<rparr> (10, 10) 5 (spiral_dirs 3) 9"
    by code_simp
  have s8: "\<not> stops_at \<lparr>x_min = 0, x_max = 20, y_min = 0, y_max = 20\<rparr> (10, 10) 5 (spiral_dirs 3) 8"
    by code_simp
  have s10: "\<not> stops_at \<lparr>x_min = 0, x_max = 20, y_min = 0, y_max = 20\<rparr> (10, 10) 5 (spiral_dirs 3) 10"
    by code_simp
  have h: "(0::int) < 5" "(0::int) \<le> 0" "(0::int) \<le> 20 div 2" by simp_all
  show ?thesis by (intro conjI) (rule h general run dirs path s9 s8 s10)+
qed

text \<open>
  C8. For every width, height and limits and every step of at least 1 the spiral generator
  terminates: it raises IndexError at once when \<open>limits\<close> has fewer than two entries, and
  otherwise returns after yielding a finite list of points.
\<close>

theorem spiral_terminates:
  "1 \<le> step \<Longrightarrow>
     \<exists>r. spiral width height limits step = Some r \<and>
         (2 \<le> length limits \<longrightarrow> (\<exists>pts. r = Inr pts))"
proof (cases "length limits < 2")
  case True
  then show ?thesis by (simp add: spiral_def)
next
  case False
  assume "1 \<le> step"
  then have "0 < step" by simp
  from spiral_loop_returns[OF this, of 0 1
      "\<lparr>x_min = limits ! 0, x_max = width - limits ! 0,
        y_min = limits ! 1, y_max = height - limits ! 1\<rparr>" "(width div 2, height div 2)"]
  obtain pts where
    "spiral_loop \<lparr>x_min = limits ! 0, x_max = width - limits ! 0,
        y_min = limits ! 1, y_max = height - limits ! 1\<rparr> step
        (width div 2, height div 2) 0 1 = Some pts"
    by auto
  with False show ?thesis by (simp add: spiral_def Let_def)
qed

theorem spiral_terminates_witness:
  "(1::int) \<le> 5 \<and> (\<exists>r. spiral 20 20 [0, 0] 5 = Some r \<and>
         (2 \<le> length [0::int, 0] \<longrightarrow> (\<exists>pts. r = Inr pts)))"
  using spiral_terminates[of 5 20 20 "[0, 0]"] by simp

section \<open>Properties of the filter commands\<close>

lemma addresses_iff:
  "k \<in> addresses lines \<longleftrightarrow> (\<exists>row\<in>lines. row \<noteq> [] \<and> address_key row = Inr k)"
proof -
  have "k \<in> (case address_key row of Inr k' \<Rightarrow> {k'} | Inl e \<Rightarrow> {}) \<longleftrightarrow> address_key row = Inr k"
    for row by (cases "address_key row") auto
  then show ?thesis unfolding addresses_def by auto
qed

lemma address_key_nonempty: "row \<noteq> [] \<Longrightarrow> \<exists>k. address_key row = Inr k"
  by (cases row) (auto simp: address_key_def first_field_def)

lemma rows_with_own_keys: "rows_with_key_in lines (addresses lines) = {row \<in> lines. row \<noteq> []}"
  using address_key_nonempty
  by (fastforce simp: rows_with_key_in_def addresses_iff split: sum.splits)

text \<open>
  C5. Union outputs exactly the non-empty rows that occur in either file; swapping the two
  files gives the same set, and the union of a file with itself is that file's set of
  non-empty rows.
\<close>

theorem union_set_algebra:
  "union_cmd (read_csv file1) (read_csv file2)
     = {row. row \<noteq> [] \<and> (row \<in> set file1 \<or> row \<in> set file2)} \<and>
   union_cmd (read_csv file1) (read_csv file2) = union_cmd (read_csv file2) (read_csv file1) \<and>
   union_cmd (read_csv file1) (read_csv file1) = {row. row \<noteq> [] \<and> row \<in> set file1}"
  by (auto simp: union_cmd_def Let_def rows_with_own_keys read_csv_def)

text \<open>
  The address key in the words of the specification: \<open>trimmed a t\<close> says that \<open>t\<close> is \<open>a\<close>
  without the white space at its two ends, and the key of \<open>a\<close> is \<open>t\<close> with every character
  lowercased.
\<close>

definition trimmed :: "string \<Rightarrow> string \<Rightarrow> bool" where
  "trimmed a t \<longleftrightarrow>
     (\<exists>l r. a = l @ t @ r \<and> list_all is_space l \<and> list_all is_space r) \<and>
     (t = [] \<or> (\<not> is_space (hd t) \<and> \<not> is_space (last t)))"

definition is_address_key :: "string \<Rightarrow> string \<Rightarrow> bool" where
  "is_address_key a k \<longleftrightarrow> (\<exists>t. trimmed a t \<and> k = map lower_char t)"

lemma py_strip_trimmed: "trimmed a (py_strip a)"
proof -
  let ?b = "dropWhile is_space a"
  let ?t = "rev (dropWhile is_space (rev ?b))"
  let ?r = "rev (takeWhile is_space (rev ?b))"
  have "?t @ ?r = rev (takeWhile is_space (rev ?b) @ dropWhile is_space (rev ?b))"
    by (simp only: rev_append)
  also have "\<dots> = rev (rev ?b)" by (simp only: takeWhile_dropWhile_id)
  also have "\<dots> = ?b" by simp
  finally have b: "?b = ?t @ ?r" by simp
  have "a = takeWhile is_space a @ ?b" by simp
  with b have a: "a = takeWhile is_space a @ ?t @ ?r" by simp
  have l: "list_all is_space (takeWhile is_space a)"
    by (auto simp: list_all_iff dest: set_takeWhileD)
  have r: "list_all is_space ?r"
    by (auto simp: list_all_iff dest: set_takeWhileD)
  have e: "\<not> is_space (hd ?t) \<and> \<not> is_space (last ?t)" if ne: "?t \<noteq> []"
  proof
    have "?b \<noteq> []"
    proof
      assume "?b = []"
      then have "?t = []" by (simp only: rev.simps dropWhile.simps)
      with ne show False by simp
    qed
    then have "\<not> is_space (hd ?b)" by (rule hd_dropWhile)
    moreover have "hd ?b = hd ?t" using b ne by (metis hd_append2)
    ultimately show "\<not> is_space (hd ?t)" by simp
    from ne have "dropWhile is_space (rev ?b) \<noteq> []" by simp
    then have "\<not> is_space (hd (dropWhile is_space (rev ?b)))" by (rule hd_dropWhile)
    then show "\<not> is_space (last ?t)" using ne by (simp add: last_rev)
  qed
  show ?thesis
    unfolding trimmed_def py_strip_def using a l r e by blast
qed

lemma trimmed_py_strip:
  assumes "trimmed a t"
  shows "t = py_strip a"
proof -
  from assms obtain l r where a: "a = l @ t @ r" and l: "list_all is_space l"
    and r: "list_all is_space r" and e: "t = [] \<or> (\<not> is_space (hd t) \<and> \<not> is_space (last t))"
    unfolding trimmed_def by blast
  have dl: "dropWhile is_space (l @ xs) = dropWhile is_space xs" for xs
    using l by (simp add: dropWhile_append list_all_iff)
  have dr: "dropWhile is_space (rev r @ xs) = dropWhile is_space xs" for xs
    using r by (simp add: dropWhile_append list_all_iff)
  show ?thesis
  proof (cases "t = []")
    case True
    have d: "dropWhile is_space a = []" unfolding a True using l r by (auto simp: list_all_iff)
    show ?thesis unfolding py_strip_def d using True by simp
  next
    case False
    with e have h: "\<not> is_space (hd t)" and la: "\<not> is_space (last t)" by simp_all
    have "dropWhile is_space (t @ r) = t @ r" using False h by (cases t) simp_all
    then have 1: "dropWhile is_space a = t @ r" unfolding a dl .
    have "dropWhile is_space (rev t) = rev t" using False la by (cases "rev t") (simp_all add: hd_rev)
    then have "dropWhile is_space (rev (t @ r)) = rev t" using dr[of "rev t"] by simp
    then show ?thesis by (simp add: py_strip_def 1)
  qed
qed

lemma is_address_key_iff: "is_address_key a k \<longleftrightarrow> k = py_lower (py_strip a)"
  unfolding is_address_key_def py_lower_def
  using py_strip_trimmed trimmed_py_strip by blast

lemma address_key_hd: "row \<noteq> [] \<Longrightarrow> address_key row = Inr (py_lower (py_strip (hd row)))"
  by (cases row) (simp_all add: address_key_def first_field_def)

lemma difference_mem: "row \<in> difference_cmd (set file1) (set file2) \<longleftrightarrow>
      row \<in> set file1 \<and> row \<noteq> [] \<and>
      \<not> (\<exists>row2. row2 \<in> set file2 \<and> row2 \<noteq> [] \<and> address_key row2 = address_key row)"
proof -
  have key: "row \<in> rows_with_key_in L (A - B) \<longleftrightarrow>
      row \<in> L \<and> row \<noteq> [] \<and> (\<exists>k. address_key row = Inr k \<and> k \<in> A \<and> k \<notin> B)" for row L A B
    by (auto simp: rows_with_key_in_def split: sum.splits)
  show ?thesis
  proof (cases "row = []")
    case True
    then show ?thesis by (simp add: difference_cmd_def Let_def key)
  next
    case False
    then obtain k where k: "address_key row = Inr k" using address_key_nonempty by blast
    show ?thesis
      using False k unfolding difference_cmd_def Let_def key addresses_iff
      by auto
  qed
qed

lemma same_key:
  assumes "row \<noteq> []" "row2 \<noteq> []"
  shows "(\<exists>k. is_address_key (hd row) k \<and> is_address_key (hd row2) k) \<longleftrightarrow>
      address_key row2 = address_key row"
  using assms by (auto simp: is_address_key_iff address_key_hd)

lemma difference_mem_key: "row \<in> difference_cmd (set file1) (set file2) \<longleftrightarrow>
      row \<in> set file1 \<and> row \<noteq> [] \<and>
      \<not> (\<exists>row2 k. row2 \<in> set file2 \<and> row2 \<noteq> [] \<and>
                   is_address_key (hd row) k \<and> is_address_key (hd row2) k)"
proof (cases "row = []")
  case True
  then show ?thesis by (simp add: difference_mem)
next
  case False
  have "(\<exists>row2 k. row2 \<in> set file2 \<and> row2 \<noteq> [] \<and>
                   is_address_key (hd row) k \<and> is_address_key (hd row2) k) \<longleftrightarrow>
        (\<exists>row2. row2 \<in> set file2 \<and> row2 \<noteq> [] \<and> address_key row2 = address_key row)"
    using same_key[OF False] by blast
  then show ?thesis unfolding difference_mem by simp
qed

lemma difference_general: "difference_cmd (read_csv file1) (read_csv file2)
     = {row. row \<in> set file1 \<and> row \<noteq> [] \<and>
             \<not> (\<exists>row2 k. row2 \<in> set file2 \<and> row2 \<noteq> [] \<and>
                   is_address_key (hd row) k \<and> is_address_key (hd row2) k)}"
  unfolding read_csv_def
  by (rule set_eqI) (simp only: difference_mem_key mem_Collect_eq)

lemma difference_disjoint: "difference_cmd (read_csv file1) (read_csv file2) \<inter> set file2 = {}"
  unfolding read_csv_def using difference_mem[of _ file1 file2] by blast


lemma key_main_st: "address_key [''Main St'', ''1'', ''2''] = Inr ''main st''"
  by code_simp
lemma key_oak_ave: "address_key [''Oak Ave'', ''5'', ''6''] = Inr ''oak ave''"
  by code_simp
lemma key_main_st_padded: "address_key [CHR 0x09 # CHR 0xA0 # '' MAIN ST  '', ''3'', ''4''] = Inr ''main st''"
  by code_simp
lemma key_elm_rd: "address_key [''Elm Rd'', ''7'', ''8''] = Inr ''elm rd''"
  by code_simp

lemma difference_example: "difference_cmd (read_csv [[''Main St'', ''1'', ''2''], [''Oak Ave'', ''5'', ''6''], []])
                  (read_csv [[CHR 0x09 # CHR 0xA0 # '' MAIN ST  '', ''3'', ''4''], [''Elm Rd'', ''7'', ''8'']])
     = {[''Oak Ave'', ''5'', ''6'']}"
proof (rule set_eqI)
  fix row :: row
  have "row \<in> difference_cmd (read_csv [[''Main St'', ''1'', ''2''], [''Oak Ave'', ''5'', ''6''], []])
                  (read_csv [[CHR 0x09 # CHR 0xA0 # '' MAIN ST  '', ''3'', ''4''], [''Elm Rd'', ''7'', ''8'']])
     \<longleftrightarrow> row = [''Oak Ave'', ''5'', ''6'']"
    unfolding read_csv_def difference_mem
  proof
    assume a: "row \<in> set [[''Main St'', ''1'', ''2''], [''Oak Ave'', ''5'', ''6''], []] \<and> row \<noteq> [] \<and>
      \<not> (\<exists>row2. row2 \<in> set [[CHR 0x09 # CHR 0xA0 # '' MAIN ST  '', ''3'', ''4''], [''Elm Rd'', ''7'', ''8'']] \<and>
             row2 \<noteq> [] \<and> address_key row2 = address_key row)"
    then consider "row = [''Main St'', ''1'', ''2'']" | "row = [''Oak Ave'', ''5'', ''6'']" by auto
    then show "row = [''Oak Ave'', ''5'', ''6'']"
    proof cases
      case 1
      have "[CHR 0x09 # CHR 0xA0 # '' MAIN ST  '', ''3'', ''4'']
              \<in> set [[CHR 0x09 # CHR 0xA0 # '' MAIN ST  '', ''3'', ''4''], [''Elm Rd'', ''7'', ''8'']]" by simp
      moreover have "address_key [CHR 0x09 # CHR 0xA0 # '' MAIN ST  '', ''3'', ''4''] = address_key row"
        unfolding 1 key_main_st key_main_st_padded ..
      ultimately show ?thesis using a by blast
    next
      case 2
      then show ?thesis .
    qed
  next
    assume r: "row = [''Oak Ave'', ''5'', ''6'']"
    show "row \<in> set [[''Main St'', ''1'', ''2''], [''Oak Ave'', ''5'', ''6''], []] \<and> row \<noteq> [] \<and>
      \<not> (\<exists>row2. row2 \<in> set [[CHR 0x09 # CHR 0xA0 # '' MAIN ST  '', ''3'', ''4''], [''Elm Rd'', ''7'', ''8'']] \<and>
             row2 \<noteq> [] \<and> address_key row2 = address_key row)"
      unfolding r key_oak_ave using key_main_st_padded key_elm_rd by auto
  qed
  then show "row \<in> difference_cmd (read_csv [[''Main St'', ''1'', ''2''], [''Oak Ave'', ''5'', ''6''], []])
                  (read_csv [[CHR 0x09 # CHR 0xA0 # '' MAIN ST  '', ''3'', ''4''], [''Elm Rd'', ''7'', ''8'']])
     \<longleftrightarrow> row \<in> {[''Oak Ave'', ''5'', ''6'']}" by simp
qed

text \<open>
  C6. Difference outputs exactly the non-empty rows of the first file whose address key
  (the first field with the white space at its ends removed, lowercased) is not the address
  key of any non-empty row of the second file, and no row of the second file is in the
  output. So the row of Main St goes when the second file has a row for MAIN ST between a
  tab, a no-break space and spaces, and the row of Oak Ave stays.
\<close>

theorem difference_rows:
  "difference_cmd (read_csv file1) (read_csv file2)
     = {row. row \<in> set file1 \<and> row \<noteq> [] \<and>
             \<not> (\<exists>row2 k. row2 \<in> set file2 \<and> row2 \<noteq> [] \<and>
                   is_address_key (hd row) k \<and> is_address_key (hd row2) k)} \<and>
   difference_cmd (read_csv file1) (read_csv file2) \<inter> set file2 = {} \<and>
   difference_cmd (read_csv [[''Main St'', ''1'', ''2''], [''Oak Ave'', ''5'', ''6''], []])
                  (read_csv [[CHR 0x09 # CHR 0xA0 # '' MAIN ST  '', ''3'', ''4''], [''Elm Rd'', ''7'', ''8'']])
     = {[''Oak Ave'', ''5'', ''6'']}"
  using difference_general[of file1 file2] difference_disjoint[of file1 file2] difference_example
  by (intro conjI)

lemma keyed_rows:
  "keyed lines = Inr kxs \<Longrightarrow> map snd kxs = lines \<and> (\<forall>kx\<in>set kxs. sort_key_of (snd kx) = Inr (fst kx))"
proof (induction lines arbitrary: kxs)
  case Nil
  then show ?case by simp
next
  case (Cons x xs)
  from Cons.prems obtain k kxs' where k: "sort_key_of x = Inr k" and r: "keyed xs = Inr kxs'"
    and e: "kxs = (k, x) # kxs'"
    by (auto split: sum.splits)
  from Cons.IH[OF r] k e show ?case by simp
qed

lemma sort_key_of_cases:
  "sort_key_of x = (if x = [] then Inl IndexError else Inr (py_lower (hd x)))"
  by (cases x) (simp_all add: sort_key_of_def first_field_def)

lemma keyed_total: "[] \<notin> set lines \<Longrightarrow> \<exists>kxs. keyed lines = Inr kxs"
proof (induction lines)
  case Nil
  show ?case by simp
next
  case (Cons x xs)
  then obtain kxs where "keyed xs = Inr kxs" by auto
  moreover have "x \<noteq> []" using Cons.prems by auto
  ultimately show ?case by (simp add: sort_key_of_cases)
qed

lemma keyed_raises: "[] \<in> set lines \<Longrightarrow> keyed lines = Inl IndexError"
proof (induction lines)
  case Nil
  then show ?case by simp
next
  case (Cons x xs)
  show ?case
  proof (cases "x = []")
    case True
    then show ?thesis by (simp add: sort_key_of_cases)
  next
    case False
    with Cons.prems have "[] \<in> set xs" by auto
    from Cons.IH[OF this] False show ?thesis by (simp add: sort_key_of_cases)
  qed
qed

lemma address_key_cases:
  "address_key row = (if row = [] then Inl IndexError else Inr (py_lower (py_strip (hd row))))"
  by (cases row) (simp_all add: address_key_def first_field_def)

lemma unique_loop_skips:
  "\<exists>res. unique_loop lines sa result = Inr res \<and> set res \<subseteq> set result \<union> (set lines - {[]})"
proof (induction lines arbitrary: sa result)
  case Nil
  show ?case by simp
next
  case (Cons row lines)
  show ?case
  proof (cases "row = []")
    case True
    from Cons.IH[of sa result] True show ?thesis
      by (auto simp: address_key_cases)
  next
    case False
    let ?a = "py_lower (py_strip (hd row))"
    show ?thesis
    proof (cases "?a \<in> sa")
      case True
      from Cons.IH[of sa result] True False show ?thesis
        by (auto simp: address_key_cases)
    next
      case notin: False
      from Cons.IH[of "insert ?a sa" "result @ [row]"] obtain res where
        "unique_loop lines (insert ?a sa) (result @ [row]) = Inr res"
        "set res \<subseteq> set (result @ [row]) \<union> (set lines - {[]})" by blast
      with notin False show ?thesis
        by (auto simp: address_key_cases)
    qed
  qed
qed

text \<open>
  C10. Sort applies \<^verbatim>\<open>x[0]\<close> to every row with no guard. \<open>lines\<close> is the set
  \<^verbatim>\<open>read_csv\<close> made of the file, in the order it is walked. When the file has no empty row
  Sort returns the same rows in non-decreasing order of the lowercased first field, so
  that a comes before b and B, and these before C; when the file has an empty row (a blank
  line) it raises IndexError. Unique, on the same rows, catches the IndexError: it returns
  a list, and the list has no empty row.
\<close>

theorem sort_unguarded:
  assumes "set lines = read_csv file"
  shows "([] \<notin> set file \<longrightarrow>
            (\<exists>out. sort_cmd lines = Inr out \<and> mset out = mset lines \<and>
                sorted (map (\<lambda>x. map lower_char (hd x)) out))) \<and>
         ([] \<in> set file \<longrightarrow> sort_cmd lines = Inl IndexError) \<and>
         (\<exists>res. unique_cmd lines = Inr res \<and> [] \<notin> set res) \<and>
         sort_cmd [[''b'', ''1''], [''B'', ''0''], [''a'', ''2''], [''C'', ''3'']]
           = Inr [[''a'', ''2''], [''b'', ''1''], [''B'', ''0''], [''C'', ''3'']]"
proof (intro conjI impI)
  assume "[] \<notin> set file"
  then have "[] \<notin> set lines" using assms by (simp add: read_csv_def)
  then obtain kxs where kxs: "keyed lines = Inr kxs" using keyed_total by blast
  note kr = keyed_rows[OF kxs]
  let ?s = "sort_key fst kxs"
  have out: "sort_cmd lines = Inr (map snd ?s)" by (simp add: sort_cmd_def kxs)
  have "mset (map snd ?s) = mset (map snd kxs)" by simp
  then have m: "mset (map snd ?s) = mset lines" using kr by simp
  have "map lower_char (hd (snd kx)) = fst kx" if "kx \<in> set ?s" for kx
  proof -
    from that kr have "sort_key_of (snd kx) = Inr (fst kx)" by simp
    then show ?thesis
      by (cases "snd kx = []") (simp_all add: sort_key_of_cases py_lower_def)
  qed
  then have k: "map (\<lambda>x. map lower_char (hd x)) (map snd ?s) = map fst ?s" by simp
  have "sorted (map fst ?s)" by (rule sorted_sort_key)
  then have "sorted (map (\<lambda>x. map lower_char (hd x)) (map snd ?s))" unfolding k .
  with out m show "\<exists>out. sort_cmd lines = Inr out \<and> mset out = mset lines \<and>
                sorted (map (\<lambda>x. map lower_char (hd x)) out)" by blast
next
  assume "[] \<in> set file"
  then have "[] \<in> set lines" using assms by (simp add: read_csv_def)
  then show "sort_cmd lines = Inl IndexError" by (simp add: sort_cmd_def keyed_raises)
next
  from unique_loop_skips[of lines "{}" "[]"]
  show "\<exists>res. unique_cmd lines = Inr res \<and> [] \<notin> set res"
    by (auto simp: unique_cmd_def)
next
  show "sort_cmd [[''b'', ''1''], [''B'', ''0''], [''a'', ''2''], [''C'', ''3'']]
           = Inr [[''a'', ''2''], [''b'', ''1''], [''B'', ''0''], [''C'', ''3'']]"
    by code_simp
qed

theorem sort_unguarded_witness:
  "set [[''B'', ''1''], [''a'', ''2'']] = read_csv [[''a'', ''2''], [''B'', ''1''], [''a'', ''2'']] \<and>
   [] \<notin> set [[''a'', ''2''], [''B'', ''1''], [''a'', ''2'']] \<and>
   (\<exists>out. sort_cmd [[''B'', ''1''], [''a'', ''2'']] = Inr out \<and>
        mset out = mset [[''B'', ''1''], [''a'', ''2'']] \<and>
        sorted (map (\<lambda>x. map lower_char (hd x)) out)) \<and>
   sort_cmd [[''B'', ''1''], [''a'', ''2'']] = Inr [[''a'', ''2''], [''B'', ''1'']] \<and>
   set [[''b'', ''1''], [], [''A'', ''2'']] = read_csv [[''b'', ''1''], [], [''A'', ''2'']] \<and>
   [] \<in> set [[''b'', ''1''], [], [''A'', ''2'']] \<and>
   sort_cmd [[''b'', ''1''], [], [''A'', ''2'']] = Inl IndexError \<and>
   (\<exists>res. unique_cmd [[''b'', ''1''], [], [''A'', ''2'']] = Inr res \<and> [] \<notin> set res) \<and>
   unique_cmd [[''b'', ''1''], [], [''A'', ''2''], ['' B '', ''3'']] = Inr [[''b'', ''1''], [''A'', ''2'']]"
proof -
  have 1: "set [[''B'', ''1''], [''a'', ''2'']] = read_csv [[''a'', ''2''], [''B'', ''1''], [''a'', ''2'']]"
    by (auto simp: read_csv_def)
  have 2: "set [[''b'', ''1''], [], [''A'', ''2'']] = read_csv [[''b'', ''1''], [], [''A'', ''2'']]"
    by (simp add: read_csv_def)
  have e1: "[] \<notin> set [[''a'', ''2''], [''B'', ''1''], [''a'', ''2'']]" by simp
  have e2: "[] \<in> set [[''b'', ''1''], [], [''A'', ''2'']]" by simp
  note s1 = sort_unguarded[OF 1]
  note s2 = sort_unguarded[OF 2]
  from s1[THEN conjunct1, THEN mp, OF e1]
  have a: "\<exists>out. sort_cmd [[''B'', ''1''], [''a'', ''2'']] = Inr out \<and>
        mset out = mset [[''B'', ''1''], [''a'', ''2'']] \<and>
        sorted (map (\<lambda>x. map lower_char (hd x)) out)" .
  have a': "sort_cmd [[''B'', ''1''], [''a'', ''2'']] = Inr [[''a'', ''2''], [''B'', ''1'']]"
    by code_simp
  from s2[THEN conjunct2, THEN conjunct1, THEN mp, OF e2]
  have b: "sort_cmd [[''b'', ''1''], [], [''A'', ''2'']] = Inl IndexError" .
  from s2[THEN conjunct2, THEN conjunct2, THEN conjunct1]
  have c: "\<exists>res. unique_cmd [[''b'', ''1''], [], [''A'', ''2'']] = Inr res \<and> [] \<notin> set res" .
  have d: "unique_cmd [[''b'', ''1''], [], [''A'', ''2''], ['' B '', ''3'']]
      = Inr [[''b'', ''1''], [''A'', ''2'']]"
    by code_simp
  show ?thesis by (intro conjI) (rule 1 e1 a a' 2 e2 b c d)+
qed

section \<open>Properties of the unique file names\<close>

definition nat_of_str :: "string \<Rightarrow> nat" where
  "nat_of_str s = foldl (\<lambda>a c. 10 * a + (of_char c - 48)) 0 s"

lemma nat_of_str_of_nat: "nat_of_str (str_of_nat n) = n"
proof (induction n rule: str_of_nat.induct)
  case (1 n)
  show ?case
  proof (cases "n < 10")
    case True
    then show ?thesis
      by (subst str_of_nat.simps) (simp add: nat_of_str_def digit_char_def)
  next
    case False
    have "n mod 10 < 10" by simp
    then have d: "(of_char (digit_char (n mod 10)) :: nat) - 48 = n mod 10"
      by (simp add: digit_char_def)
    have "nat_of_str (str_of_nat n) = 10 * nat_of_str (str_of_nat (n div 10)) + n mod 10"
      using False d by (subst str_of_nat.simps) (simp add: nat_of_str_def)
    with 1[OF False] show ?thesis by simp
  qed
qed

lemma filename_of_inj: "filename_of prefix i = filename_of prefix j \<Longrightarrow> i = j"
proof -
  assume "filename_of prefix i = filename_of prefix j"
  then have "str_of_nat i = str_of_nat j" by (simp add: filename_of_def)
  then have "nat_of_str (str_of_nat i) = nat_of_str (str_of_nat j)" by simp
  then show "i = j" by (simp only: nat_of_str_of_nat)
qed

lemma finite_taken:
  assumes "finite (dom fs)"
  shows "finite {j. fs (filename_of prefix j) \<noteq> None}"
proof -
  have "inj (filename_of prefix)" by (auto simp: inj_on_def dest: filename_of_inj)
  then have "finite (filename_of prefix -` dom fs)" using assms by (simp add: finite_vimageI)
  moreover have "{j. fs (filename_of prefix j) \<noteq> None} = filename_of prefix -` dom fs"
    by (auto simp: dom_def)
  ultimately show ?thesis by simp
qed

lemma unique_filename_loop_finds:
  assumes fin: "finite (dom fs)"
  shows "\<exists>i\<ge>index. unique_filename_loop fs prefix index = Some (filename_of prefix i) \<and>
           fs (filename_of prefix i) = None \<and>
           (\<forall>j. index \<le> j \<and> j < i \<longrightarrow> fs (filename_of prefix j) \<noteq> None)"
proof (induction "card {j. index \<le> j \<and> fs (filename_of prefix j) \<noteq> None}"
         arbitrary: index rule: less_induct)
  case less
  let ?T = "\<lambda>k. {j. k \<le> j \<and> fs (filename_of prefix j) \<noteq> None}"
  show ?case
  proof (cases "fs (filename_of prefix index) = None")
    case True
    then have "unique_filename_loop fs prefix index = Some (filename_of prefix index)"
      by (subst unique_filename_loop.simps) (simp add: Let_def)
    with True show ?thesis by (intro exI[of _ index]) auto
  next
    case False
    have f: "finite (?T index)"
      by (rule finite_subset[OF _ finite_taken[OF fin, of prefix]]) auto
    have "index \<in> ?T index" "index \<notin> ?T (index + 1)" "?T (index + 1) \<subseteq> ?T index"
      using False by auto
    then have "?T (index + 1) \<subset> ?T index" by blast
    then have "card (?T (index + 1)) < card (?T index)" using f by (rule psubset_card_mono[rotated])
    from less.hyps[OF this] obtain i where i: "index + 1 \<le> i"
      "unique_filename_loop fs prefix (index + 1) = Some (filename_of prefix i)"
      "fs (filename_of prefix i) = None"
      "\<forall>j. index + 1 \<le> j \<and> j < i \<longrightarrow> fs (filename_of prefix j) \<noteq> None"
      by blast
    have "unique_filename_loop fs prefix index = Some (filename_of prefix i)"
      using i(2) by (subst unique_filename_loop.simps) (simp add: Let_def False)
    moreover have "\<forall>j. index \<le> j \<and> j < i \<longrightarrow> fs (filename_of prefix j) \<noteq> None"
    proof (intro allI impI)
      fix j assume j: "index \<le> j \<and> j < i"
      show "fs (filename_of prefix j) \<noteq> None"
      proof (cases "j = index")
        case True
        then show ?thesis using False by simp
      next
        case False
        then have "index + 1 \<le> j \<and> j < i" using j by simp
        then show ?thesis using i(4) by blast
      qed
    qed
    ultimately show ?thesis using i(1,3) by (intro exI[of _ i]) auto
  qed
qed

text \<open>
  C9. On a file system with finitely many files \<^verbatim>\<open>get_unique_filename\<close> returns the path
  \<^verbatim>\<open>locations/{prefix}{i}.csv\<close> with the smallest index i whose file does not exist, so the
  returned path does not exist; and saving a scan or filter result under the returned
  name leaves every existing file as it was.
\<close>

theorem unique_filename_fresh:
  assumes "finite (dom fs)"
  shows "(\<exists>i. get_unique_filename fs prefix = Some (filename_of prefix i) \<and>
              fs (filename_of prefix i) = None \<and>
              (\<forall>j<i. fs (filename_of prefix j) \<noteq> None)) \<and>
         (\<exists>output_file fs'. save_result cmd data fs = Some (output_file, fs') \<and>
              fs output_file = None \<and> fs' output_file = Some data \<and>
              (\<forall>p\<in>dom fs. fs' p = fs p))"
proof
  from unique_filename_loop_finds[OF assms, of 0 prefix]
  show "\<exists>i. get_unique_filename fs prefix = Some (filename_of prefix i) \<and>
              fs (filename_of prefix i) = None \<and>
              (\<forall>j<i. fs (filename_of prefix j) \<noteq> None)"
    unfolding get_unique_filename_def by auto
next
  from unique_filename_loop_finds[OF assms, of 0 "prefix_of cmd"] obtain i where
    i: "get_unique_filename fs (prefix_of cmd) = Some (filename_of (prefix_of cmd) i)"
       "fs (filename_of (prefix_of cmd) i) = None"
    unfolding get_unique_filename_def by auto
  let ?f = "filename_of (prefix_of cmd) i"
  have "save_result cmd data fs = Some (?f, write_csv data ?f fs)"
    by (simp add: save_result_def i(1))
  moreover have "write_csv data ?f fs ?f = Some data" by (simp add: write_csv_def)
  moreover have "\<forall>p\<in>dom fs. write_csv data ?f fs p = fs p"
    using i(2) by (auto simp: write_csv_def)
  ultimately show "\<exists>output_file fs'. save_result cmd data fs = Some (output_file, fs') \<and>
              fs output_file = None \<and> fs' output_file = Some data \<and>
              (\<forall>p\<in>dom fs. fs' p = fs p)"
    using i(2) by blast
qed

theorem unique_filename_fresh_witness:
  "finite (dom [''locations/locations0.csv'' \<mapsto> [[''a'', ''1'', ''2'']]]) \<and>
   (\<exists>i. get_unique_filename [''locations/locations0.csv'' \<mapsto> [[''a'', ''1'', ''2'']]] ''locations''
            = Some (filename_of ''locations'' i) \<and>
         [''locations/locations0.csv'' \<mapsto> [[''a'', ''1'', ''2'']]] (filename_of ''locations'' i) = None \<and>
         (\<forall>j<i. [''locations/locations0.csv'' \<mapsto> [[''a'', ''1'', ''2'']]] (filename_of ''locations'' j) \<noteq> None)) \<and>
   (\<exists>output_file fs'.
       save_result Scan [] [''locations/locations0.csv'' \<mapsto> [[''a'', ''1'', ''2'']]] = Some (output_file, fs') \<and>
       [''locations/locations0.csv'' \<mapsto> [[''a'', ''1'', ''2'']]] output_file = None \<and>
       fs' output_file = Some [] \<and>
       (\<forall>p\<in>dom [''locations/locations0.csv'' \<mapsto> [[''a'', ''1'', ''2'']]].
           fs' p = [''locations/locations0.csv'' \<mapsto> [[''a'', ''1'', ''2'']]] p)) \<and>
   get_unique_filename [''locations/locations0.csv'' \<mapsto> [[''a'', ''1'', ''2'']]] ''locations''
     = Some ''locations/locations1.csv'' \<and>
   filename_of ''union'' 12 = ''locations/union12.csv''"
proof -
  have f: "finite (dom [''locations/locations0.csv'' \<mapsto> [[''a'', ''1'', ''2'']]])" by simp
  have a: "get_unique_filename [''locations/locations0.csv'' \<mapsto> [[''a'', ''1'', ''2'']]] ''locations''
     = Some ''locations/locations1.csv''"
    by code_simp
  have b: "filename_of ''union'' 12 = ''locations/union12.csv''"
    by code_simp
  note fresh = unique_filename_fresh[OF f, of "''locations''" Scan "[]"]
  show ?thesis
    by (intro conjI) (rule f fresh[THEN conjunct1] fresh[THEN conjunct2] a b)+
qed

section \<open>Properties of the validators and of the zoom level\<close>

lemma fle_range:
  "fle (Finite lo) x \<and> fle x (Finite hi) \<longleftrightarrow> (\<exists>a. x = Finite a \<and> lo \<le> a \<and> a \<le> hi)"
  by (cases x) auto

text \<open>
  C7. Given that \<^verbatim>\<open>float\<close> on a string raises nothing but ValueError,
  \<^verbatim>\<open>validate_coordinates\<close> never raises and returns True exactly when both texts parse, the
  latitude to a float in [-90, 90] and the longitude to a float in [-180, 180];
  \<^verbatim>\<open>validate_radius\<close> never raises and returns True exactly when the text parses to a float
  in [0.01, 10000]. In particular both return False on a text that does not parse.
\<close>

theorem validators_correct:
  assumes "\<forall>s. float_of s = Inl ValueError \<or> (\<exists>x. float_of s = Inr x)"
  shows "validate_coordinates float_of lat lon
           = Inr (\<exists>a b. float_of lat = Inr (Finite a) \<and> float_of lon = Inr (Finite b) \<and>
                        -90 \<le> a \<and> a \<le> 90 \<and> -180 \<le> b \<and> b \<le> 180) \<and>
         validate_radius float_of radius
           = Inr (\<exists>r. float_of radius = Inr (Finite r) \<and> 1 / 100 \<le> r \<and> r \<le> 10000)"
proof
  have lat: "float_of lat = Inl ValueError \<or> (\<exists>x. float_of lat = Inr x)"
    and lon: "float_of lon = Inl ValueError \<or> (\<exists>x. float_of lon = Inr x)"
    using assms by blast+
  show "validate_coordinates float_of lat lon
           = Inr (\<exists>a b. float_of lat = Inr (Finite a) \<and> float_of lon = Inr (Finite b) \<and>
                        -90 \<le> a \<and> a \<le> 90 \<and> -180 \<le> b \<and> b \<le> 180)"
  proof (cases "float_of lat")
    case (Inl e)
    with lat show ?thesis by (simp add: validate_coordinates_def)
  next
    case la: (Inr la)
    show ?thesis
    proof (cases "float_of lon")
      case (Inl e)
      with lon la show ?thesis by (simp add: validate_coordinates_def)
    next
      case lo: (Inr lo)
      have "fle (Finite (-90)) la \<and> fle la (Finite 90) \<and> fle (Finite (-180)) lo \<and> fle lo (Finite 180)
            \<longleftrightarrow> (\<exists>a b. la = Finite a \<and> lo = Finite b \<and> -90 \<le> a \<and> a \<le> 90 \<and> -180 \<le> b \<and> b \<le> 180)"
        using fle_range[of "-90" la 90] fle_range[of "-180" lo 180] by blast
      then show ?thesis by (simp add: validate_coordinates_def la lo)
    qed
  qed
next
  have r: "float_of radius = Inl ValueError \<or> (\<exists>x. float_of radius = Inr x)"
    using assms by blast
  show "validate_radius float_of radius
           = Inr (\<exists>r. float_of radius = Inr (Finite r) \<and> 1 / 100 \<le> r \<and> r \<le> 10000)"
  proof (cases "float_of radius")
    case (Inl e)
    with r show ?thesis by (simp add: validate_radius_def)
  next
    case (Inr x)
    then show ?thesis using fle_range[of "1 / 100" x 10000] by (simp add: validate_radius_def)
  qed
qed

definition sample_float_of :: float_parser where
  "sample_float_of s =
     (if s = ''45'' then Inr (Finite 45)
      else if s = ''200'' then Inr (Finite 200)
      else if s = ''nan'' then Inr NaN
      else Inl ValueError)"

theorem validators_correct_witness:
  "(\<forall>s. sample_float_of s = Inl ValueError \<or> (\<exists>x. sample_float_of s = Inr x)) \<and>
   validate_coordinates sample_float_of ''45'' ''200'' = Inr False \<and>
   validate_coordinates sample_float_of ''45'' ''45'' = Inr True \<and>
   validate_coordinates sample_float_of ''north'' ''45'' = Inr False \<and>
   validate_radius sample_float_of ''nan'' = Inr False \<and>
   validate_radius sample_float_of ''200'' = Inr True"
proof -
  have h: "\<forall>s. sample_float_of s = Inl ValueError \<or> (\<exists>x. sample_float_of s = Inr x)"
    by (simp add: sample_float_of_def)
  have v: "sample_float_of ''45'' = Inr (Finite 45)"
    "sample_float_of ''200'' = Inr (Finite 200)"
    "sample_float_of ''nan'' = Inr NaN"
    "sample_float_of ''north'' = Inl ValueError"
    by (simp_all add: sample_float_of_def)
  show ?thesis
    using h validators_correct[OF h, of "''45''" "''200''" "''nan''"]
      validators_correct[OF h, of "''45''" "''45''" "''200''"]
      validators_correct[OF h, of "''north''" "''45''" "''200''"]
    by (simp add: v)
qed

lemma py_round_low:
  assumes "0 \<le> x" "x < 1 / 2"
  shows "py_round (of_int n + x) = n"
proof -
  have "\<lfloor>of_int n + x\<rfloor> = n" using assms by (simp add: floor_unique)
  then show ?thesis using assms by (simp add: py_round_def Let_def)
qed

lemma log2_small:
  assumes "1 \<le> r" "r\<^sup>2 < 2"
  shows "0 \<le> log 2 r" "log 2 r < 1 / 2"
proof -
  show "0 \<le> log 2 r" using assms(1) by simp
  have "r < sqrt 2" using assms(2) by (rule real_less_rsqrt)
  also have "sqrt 2 = 2 powr (1 / 2)" by (simp add: powr_half_sqrt)
  finally have "log 2 r < log 2 (2 powr (1 / 2))" using assms(1) by (intro log_less) auto
  also have "log 2 (2 powr (1 / 2)) = (1 / 2 :: real)" by (rule log_powr_cancel) auto
  finally show "log 2 r < 1 / 2" .
qed

lemma compute_zoom_six:
  assumes "823862 \<le> kilometers * 1000" "kilometers * 1000 < 1164888"
  shows "compute_zoom kilometers = 6"
proof -
  let ?m = "kilometers * 1000"
  let ?r = "1165116 / ?m"
  have pos: "0 < ?m" using assms(1) by linarith
  have r1: "1 \<le> ?r" using assms(2) pos by (simp add: field_simps)
  have r0: "0 \<le> ?r" using r1 by linarith
  have "?r \<le> 1165116 / 823862" by (intro divide_left_mono) (use assms(1) pos in auto)
  then have "?r\<^sup>2 \<le> (1165116 / 823862)\<^sup>2" using r0 by (rule power_mono)
  also have "\<dots> < (2::real)" by (simp add: power2_eq_square)
  finally have r2: "?r\<^sup>2 < 2" .
  from log2_small[OF r1 r2] have "py_round (of_int 6 + log 2 ?r) = 6" by (rule py_round_low)
  then show ?thesis using assms by (simp add: compute_zoom_def Let_def)
qed

lemma powr_fifth: "(2 powr (1 / 5)) ^ 5 = (2::real)"
proof -
  have "(2 powr (1 / 5 :: real)) ^ 5 = (2 powr (1 / 5)) powr (real 5)"
    by (rule powr_realpow[symmetric]) simp
  also have "\<dots> = 2 powr (1 / 5 * real 5)" by (rule powr_powr)
  also have "\<dots> = 2" by simp
  finally show ?thesis .
qed

lemma powr_tenth: "(2 powr (3 / 10)) ^ 10 = (8::real)"
proof -
  have "(2 powr (3 / 10 :: real)) ^ 10 = (2 powr (3 / 10)) powr (real 10)"
    by (rule powr_realpow[symmetric]) simp
  also have "\<dots> = 2 powr (3 / 10 * real 10)" by (rule powr_powr)
  also have "\<dots> = 2 powr (real 3)" by simp
  also have "\<dots> = 2 ^ 3" by (rule powr_realpow) simp
  finally show ?thesis by simp
qed

lemma log2_bounds:
  assumes "0 < r" "2 \<le> r ^ 5" "r ^ 10 \<le> 8"
  shows "1 / 5 \<le> log 2 r" "log 2 r \<le> 3 / 10"
proof -
  have "2 powr (1 / 5) \<le> r"
  proof (rule power_le_imp_le_base[where n = 4])
    show "(2 powr (1 / 5)) ^ Suc 4 \<le> r ^ Suc 4" using assms(2) powr_fifth by simp
    show "0 \<le> r" using assms(1) by simp
  qed
  moreover have "1 / 5 \<le> log 2 r \<longleftrightarrow> 2 powr (1 / 5) \<le> r"
    by (rule le_log_iff) (use assms(1) in auto)
  ultimately show "1 / 5 \<le> log 2 r" by blast
  have "r \<le> 2 powr (3 / 10)"
  proof (rule power_le_imp_le_base[where n = 9])
    show "r ^ Suc 9 \<le> (2 powr (3 / 10)) ^ Suc 9" using assms(3) powr_tenth by simp
    show "0 \<le> 2 powr (3 / 10 :: real)" by simp
  qed
  moreover have "log 2 r \<le> 3 / 10 \<longleftrightarrow> r \<le> 2 powr (3 / 10)"
    by (rule log_le_iff) (use assms(1) in auto)
  ultimately show "log 2 r \<le> 3 / 10" by blast
qed

text \<open>
  For a radius of 1000 km the sum that is rounded lies between 6.2 and 6.3: an error below
  one fifth in it, far more than the rounding of the floating-point steps adds, leaves the
  zoom at 6.
\<close>

lemma zoom_1000_margin:
  assumes "\<bar>e\<bar> < 1 / 5"
  shows "py_round (6 + log 2 (1165116 / (1000 * 1000)) + e) = 6"
proof -
  let ?x = "log 2 (1165116 / (1000 * 1000)) :: real"
  have p: "(0::real) < 1165116 / (1000 * 1000)" "2 \<le> (1165116 / (1000 * 1000) :: real) ^ 5"
    "(1165116 / (1000 * 1000) :: real) ^ 10 \<le> 8"
    by (simp_all add: power_divide)
  have b: "1 / 5 \<le> ?x" "?x \<le> 3 / 10"
    by (rule log2_bounds[OF p])+
  have "py_round (of_int 6 + (?x + e)) = 6"
    by (rule py_round_low) (use b assms in linarith)+
  then show ?thesis by (simp add: add.assoc)
qed

text \<open>
  C2. A radius of 1000 km passes \<^verbatim>\<open>validate_radius\<close>, and \<^verbatim>\<open>compute_zoom\<close> gives zoom 6
  for it, below the clamp of 7 that it gives for a radius of 2000 km: the result leaves
  [7, 21], and the larger radius has the larger zoom.
\<close>

theorem compute_zoom_below_clamp:
  "compute_zoom 1000 = 6 \<and> compute_zoom 2000 = 7 \<and> (1000::real) \<le> 2000 \<and>
   (1 / 100 :: real) \<le> 1000 \<and> (2000::real) \<le> 10000"
proof -
  have "compute_zoom 1000 = 6" by (rule compute_zoom_six) simp_all
  moreover have "compute_zoom 2000 = 7" by (simp add: compute_zoom_def Let_def)
  ultimately show ?thesis by simp
qed

section \<open>Properties of the scan of a cell\<close>




























section \<open>Properties of capture mode\<close>

lemma lookup_img_selector: "lookup_name ''img_selector'' = Some NameError"
  by (simp add: lookup_name_def capture_locals_def module_names_def)

lemma capture_body_raises:
  "\<exists>e. capture_body browser images base_name = Some (Inl e)"
  by (simp add: capture_body_def lookup_img_selector split: option.splits)

lemma capture_location_never_one:
  "capture_location browser images location \<noteq> Some (Inr (1, files))"
proof -
  have body: "except_keyboard_interrupt (capture_body browser images b) \<noteq> Some (Inr (1, files))" for b
    using capture_body_raises[of browser images b]
    by (auto simp: except_keyboard_interrupt_def split: if_splits)
  have three: "capture_location browser images [a, la, lo] \<noteq> Some (Inr (1, files))" for a la lo
    using body by (simp add: capture_location_def Let_def)
  show ?thesis
  proof (cases location)
    case Nil
    then show ?thesis by (simp add: capture_location_def)
  next
    case c1: (Cons a l1)
    show ?thesis
    proof (cases l1)
      case Nil
      with c1 show ?thesis by (simp add: capture_location_def)
    next
      case c2: (Cons la l2)
      show ?thesis
      proof (cases l2)
        case Nil
        with c1 c2 show ?thesis by (simp add: capture_location_def)
      next
        case c3: (Cons lo l3)
        show ?thesis
        proof (cases l3)
          case Nil
          with c1 c2 c3 three show ?thesis by simp
        next
          case (Cons x l4)
          with c1 c2 c3 show ?thesis by (simp add: capture_location_def)
        qed
      qed
    qed
  qed
qed

text \<open>
  C3. With a browser in which every call succeeds, \<^verbatim>\<open>capture_location\<close> on a row
  (address, latitude, longitude) raises NameError at \<^verbatim>\<open>img_selector\<close>: it writes no image
  and returns nothing, and \<^verbatim>\<open>find_images\<close> raises the same exception. A time-out of
  \<^verbatim>\<open>page.goto\<close> is not caught either.
\<close>

theorem capture_location_raises:
  "capture_location (\<lambda>k. None) {} [''Main St 1'', ''10.0'', ''20.0''] = Some (Inl NameError) \<and>
   find_images (\<lambda>i k. None) {} [[''Main St 1'', ''10.0'', ''20.0'']] [0] = Some (Inl NameError) \<and>
   capture_location (\<lambda>k. if k = 4 then Some PlaywrightTimeoutError else None) {}
     [''Main St 1'', ''10.0'', ''20.0''] = Some (Inl PlaywrightTimeoutError)"
  by (simp add: capture_location_def capture_body_def lookup_img_selector find_images_def
        except_keyboard_interrupt_def Let_def sanitize_def)

end
